theory Spec2Isabelle
  imports Main "HOL-Library.Word"
begin

unbundle bit_operations_syntax

section \<open>Machine types and constants\<close>

text \<open>
  The C sources use \<open>uint64_t\<close> for nibble codes, \<open>uint32_t\<close> for slot keys, posting
  counters, packed (id, deletion position) entries and the visited-set generation, and
  \<open>int\<close> for keyword ids, offsets and lengths.  Unsigned types are modelled as words (their
  arithmetic wraps).  C \<open>int\<close> values are modelled as HOL integers: signed overflow is
  undefined in C, and every theorem that depends on an \<open>int\<close> value carries the bound on
  the number of keywords under which no \<open>int\<close> of the program leaves the 32-bit range.
  Arrays of a fixed huge size (counts, offsets, cursors, the visited buffer) are total
  functions on indices; arrays whose length matters (keyword records, codes, posting
  payloads) are lists.
\<close>

type_synonym u8 = "8 word"
type_synonym u32 = "32 word"
type_synonym u64 = "64 word"

definition KEYWORD_LEN :: nat where
  "KEYWORD_LEN = 15"

definition CASEFILTER_HPAIR_COUNT :: nat where
  "CASEFILTER_HPAIR_COUNT = 10"

definition CASEFILTER_H_KEY_SPACE :: nat where
  "CASEFILTER_H_KEY_SPACE = 1000000"

definition CASEFILTER_DEL_KEY_SPACE :: nat where
  "CASEFILTER_DEL_KEY_SPACE = 10000000"

section \<open>Nibble codec and SWAR Hamming distance\<close>

text \<open>
  A C \<open>char\<close> is a signed byte on the reference platform; \<open>word[i] - 'A'\<close> is computed
  in \<open>int\<close> and then converted to the unsigned type of the left-hand side.
\<close>

definition char_val :: "char \<Rightarrow> int" where
  "char_val c = sint (of_char c :: u8)"

definition nib64 :: "char \<Rightarrow> u64" where
  "nib64 c = (word_of_int (char_val c - 65)) AND 0xF"

text \<open>\<open>pack_keyword\<close>: the loop \<open>for (i = 0; i < KEYWORD_LEN; ++i) v |= nib << (i * 4)\<close>.
  \<open>casefilter_insert\<close> and \<open>casefilter_deserialize\<close> contain the same loop inline.\<close>

definition pack_keyword :: "string \<Rightarrow> u64" where
  "pack_keyword word =
     fold (\<lambda>i v. v OR push_bit (i * 4) (nib64 (word ! i))) [0..<KEYWORD_LEN] 0"

definition casefilter_pack_delete :: "u64 \<Rightarrow> nat \<Rightarrow> u64" where
  "casefilter_pack_delete code del_pos =
     (let low_mask = (if del_pos = 0 then 0 else push_bit (del_pos * 4) 1 - 1);
          lower = code AND low_mask;
          upper = drop_bit ((del_pos + 1) * 4) code
      in lower OR push_bit (del_pos * 4) upper)"

text \<open>\<open>popcount64\<close> returns the top byte of the 64-bit product, converted to \<open>int\<close>.\<close>

definition popcount64 :: "u64 \<Rightarrow> int" where
  "popcount64 x0 =
     (let x1 = x0 - (drop_bit 1 x0 AND 0x5555555555555555);
          x2 = (x1 AND 0x3333333333333333) + (drop_bit 2 x1 AND 0x3333333333333333);
          x3 = (x2 + drop_bit 4 x2) AND 0x0F0F0F0F0F0F0F0F
      in sint (ucast (drop_bit 56 (x3 * 0x0101010101010101)) :: u32))"

definition hamming_packed15 :: "u64 \<Rightarrow> u64 \<Rightarrow> int" where
  "hamming_packed15 a b =
     (let x0 = a XOR b;
          x1 = x0 OR drop_bit 1 x0;
          x2 = x1 OR drop_bit 2 x1;
          x3 = x2 AND 0x1111111111111111
      in popcount64 x3)"

definition hamming_packed14 :: "u64 \<Rightarrow> u64 \<Rightarrow> int" where
  "hamming_packed14 a b =
     (let x0 = a XOR b;
          x1 = x0 OR drop_bit 1 x0;
          x2 = x1 OR drop_bit 2 x1;
          x3 = x2 AND 0x11111111111111
      in popcount64 x3)"

subsection \<open>Reference notions the codec is compared with\<close>

text \<open>The alphabet \<open>{A..J}\<close> and the words of length 15 over it.\<close>

definition valid_sym :: "char \<Rightarrow> bool" where
  "valid_sym c = (c \<in> set ''ABCDEFGHIJ'')"

definition valid_word :: "string \<Rightarrow> bool" where
  "valid_word w = (length w = 15 \<and> list_all valid_sym w)"

text \<open>The nibble code of a string of any length as the specification words it:
  symbol \<open>i\<close> contributes \<open>(w[i] - 'A') << (4 * i)\<close>.\<close>

definition sym_val :: "char \<Rightarrow> nat" where
  "sym_val c = of_char c - of_char CHR ''A''"

primrec digits16 :: "nat list \<Rightarrow> nat" where
  "digits16 [] = 0"
| "digits16 (d # ds) = d + 16 * digits16 ds"

definition nibble_code :: "string \<Rightarrow> u64" where
  "nibble_code cs = word_of_nat (digits16 (map sym_val cs))"

text \<open>Character-wise Hamming distance: the number of positions where two strings differ.\<close>

definition hamming :: "'a list \<Rightarrow> 'a list \<Rightarrow> nat" where
  "hamming xs ys = length (filter (\<lambda>(x, y). x \<noteq> y) (zip xs ys))"

text \<open>Removing the character at position \<open>p\<close>.\<close>

definition delete_at :: "nat \<Rightarrow> 'a list \<Rightarrow> 'a list" where
  "delete_at p w = take p w @ drop (Suc p) w"

section \<open>The index and its construction\<close>

text \<open>
  \<open>HIndex\<close> and \<open>DelIndex\<close> are the two CSR tables, \<open>CaseFilterIndex\<close> the whole index.
  \<open>keywords_arr\<close> (the array \<open>keywords\<close> of the source) holds the raw 16-byte records, \<open>codes\<close> the packed nibble codes; both are
  indexed by keyword id.  The payload arrays \<open>h_ids\<close> and \<open>d_idpos\<close> are lists whose length
  is the allocated number of entries.
\<close>

record HIndex =
  h_key_space :: int
  h_pair_count :: int
  h_offsets :: "nat \<Rightarrow> int"
  h_counts :: "nat \<Rightarrow> u32"
  h_ids :: "int list"

record DelIndex =
  d_key_space :: int
  d_offsets :: "nat \<Rightarrow> int"
  d_counts :: "nat \<Rightarrow> u32"
  d_idpos :: "u32 list"

record CaseFilterIndex =
  keywords_arr :: "nat \<Rightarrow> string"
  keyword_count :: int
  keyword_cap :: int
  codes :: "nat \<Rightarrow> u64"
  hidx :: HIndex
  del7 :: DelIndex

definition pair_i :: "nat list" where
  "pair_i = [0,0,0,0,1,1,1,2,2,3]"

definition pair_j :: "nat list" where
  "pair_j = [1,2,3,4,2,3,4,3,4,4]"

text \<open>\<open>pack_key6\<close> and \<open>pack_key7\<close>: \<open>v += (((uint32_t)key[i] - 'A') & 0xF) * mul; mul *= 10u\<close>.\<close>

definition nib32 :: "char \<Rightarrow> u32" where
  "nib32 c = (word_of_int (char_val c) - 65) AND 0xF"

definition pack_key6 :: "string \<Rightarrow> u32" where
  "pack_key6 key = fst (fold (\<lambda>i (v, mul). (v + nib32 (key ! i) * mul, mul * 10)) [0..<6] (0, 1))"

definition pack_key7 :: "string \<Rightarrow> u32" where
  "pack_key7 key = fst (fold (\<lambda>i (v, mul). (v + nib32 (key ! i) * mul, mul * 10)) [0..<7] (0, 1))"

subsection \<open>Creation and insertion\<close>

definition casefilter_create :: "int \<Rightarrow> CaseFilterIndex" where
  "casefilter_create capacity =
     \<lparr> keywords_arr = (\<lambda>_. []), keyword_count = 0,
       keyword_cap = (if capacity > 0 then capacity else 1024),
       codes = (\<lambda>_. 0),
       hidx = \<lparr> h_key_space = 0, h_pair_count = 0, h_offsets = (\<lambda>_. 0), h_counts = (\<lambda>_. 0),
                h_ids = [] \<rparr>,
       del7 = \<lparr> d_key_space = 0, d_offsets = (\<lambda>_. 0), d_counts = (\<lambda>_. 0), d_idpos = [] \<rparr> \<rparr>"

definition ensure_keyword_cap :: "CaseFilterIndex \<Rightarrow> CaseFilterIndex" where
  "ensure_keyword_cap idx =
     (if keyword_count idx < keyword_cap idx then idx
      else idx\<lparr>keyword_cap := (if keyword_cap idx \<noteq> 0 then keyword_cap idx * 2 else 1024)\<rparr>)"

text \<open>
  The \<open>word\<close> argument of \<open>casefilter_insert\<close> is a pointer: \<open>None\<close> is \<open>NULL\<close>, \<open>Some buf\<close>
  the bytes it points to.  The function reads exactly \<open>buf[0..14]\<close> (by \<open>memcpy\<close> and by the
  packing loop) and never looks for a terminator.
\<close>

definition casefilter_insert :: "CaseFilterIndex \<Rightarrow> string option \<Rightarrow> CaseFilterIndex" where
  "casefilter_insert idx word =
     (case word of
        None \<Rightarrow> idx
      | Some buf \<Rightarrow>
          (let idx1 = ensure_keyword_cap idx;
               n = nat (keyword_count idx1)
           in idx1\<lparr> keywords_arr := (keywords_arr idx1)
                        (n := map (\<lambda>i. buf ! i) [0..<KEYWORD_LEN] @ [CHR 0x00]),
                    codes := (codes idx1)(n := pack_keyword buf),
                    keyword_count := keyword_count idx1 + 1 \<rparr>))"

subsection \<open>The pair index (Case A)\<close>

text \<open>\<open>blocks_of\<close>: \<open>memcpy(blocks[b], w + b * 3, 3)\<close> for the five blocks; \<open>pair_key\<close>: the
  two \<open>memcpy\<close>s into \<open>key\<close>; \<open>hslot\<close>: \<open>(int)(pack_key6(key) + (uint32_t)p * H_KEY_SPACE)\<close>.\<close>

definition blocks_of :: "string \<Rightarrow> string list" where
  "blocks_of w = map (\<lambda>b. map (\<lambda>i. w ! (b * 3 + i)) [0..<3]) [0..<5]"

definition pair_key :: "string list \<Rightarrow> nat \<Rightarrow> string" where
  "pair_key blocks p = blocks ! (pair_i ! p) @ blocks ! (pair_j ! p)"

definition hslot :: "string \<Rightarrow> nat \<Rightarrow> nat" where
  "hslot w p =
     nat (sint (pack_key6 (pair_key (blocks_of w) p)
                + word_of_nat p * word_of_nat CASEFILTER_H_KEY_SPACE))"

definition hcount_word :: "string \<Rightarrow> (nat \<Rightarrow> u32) \<Rightarrow> (nat \<Rightarrow> u32)" where
  "hcount_word w counts =
     fold (\<lambda>p c. c(hslot w p := c (hslot w p) + 1)) [0..<CASEFILTER_HPAIR_COUNT] counts"

definition hcount_pass :: "(nat \<Rightarrow> string) \<Rightarrow> nat \<Rightarrow> (nat \<Rightarrow> u32)" where
  "hcount_pass kw n = fold (\<lambda>wid c. hcount_word (kw wid) c) [0..<n] (\<lambda>_. 0)"

text \<open>The prefix sum \<open>offsets[0] = 0; offsets[i + 1] = offsets[i] + (int)counts[i]\<close>.\<close>

definition prefix_offsets :: "nat \<Rightarrow> (nat \<Rightarrow> u32) \<Rightarrow> (nat \<Rightarrow> int)" where
  "prefix_offsets slots counts =
     fold (\<lambda>i off. off(i + 1 := off i + sint (counts i))) [0..<slots] ((\<lambda>_. 0)(0 := 0))"

definition hfill_word ::
  "nat \<Rightarrow> string \<Rightarrow> (nat \<Rightarrow> int) \<times> int list \<Rightarrow> (nat \<Rightarrow> int) \<times> int list" where
  "hfill_word wid w =
     fold (\<lambda>p (cursor, ids).
             (cursor(hslot w p := cursor (hslot w p) + 1), ids[nat (cursor (hslot w p)) := int wid]))
          [0..<CASEFILTER_HPAIR_COUNT]"

definition build_hindex :: "CaseFilterIndex \<Rightarrow> CaseFilterIndex" where
  "build_hindex idx =
     (let slots = CASEFILTER_H_KEY_SPACE * CASEFILTER_HPAIR_COUNT;
          n = nat (keyword_count idx);
          counts = hcount_pass (keywords_arr idx) n;
          offsets = prefix_offsets slots counts;
          total_ids = offsets slots;
          ids0 = replicate (nat total_ids) 0;
          filled = fold (\<lambda>wid. hfill_word wid (keywords_arr idx wid)) [0..<n] (offsets, ids0)
      in idx\<lparr> hidx := \<lparr> h_key_space = int CASEFILTER_H_KEY_SPACE,
                         h_pair_count = int CASEFILTER_HPAIR_COUNT,
                         h_offsets = offsets, h_counts = counts, h_ids = snd filled \<rparr> \<rparr>)"

subsection \<open>The deletion index (Case B)\<close>

text \<open>\<open>del_string\<close>: the loop copying \<open>w[i]\<close> for \<open>i \<noteq> pos\<close> into \<open>del\<close>; the left key is
  \<open>del[0..6]\<close>, the right key \<open>del[7..13]\<close>.\<close>

definition del_string :: "string \<Rightarrow> nat \<Rightarrow> string" where
  "del_string w pos = map (\<lambda>i. w ! i) (filter (\<lambda>i. i \<noteq> pos) [0..<KEYWORD_LEN])"

definition lslot_of :: "string \<Rightarrow> nat \<Rightarrow> nat" where
  "lslot_of w pos = nat (sint (pack_key7 (take 7 (del_string w pos))))"

definition rslot_of :: "string \<Rightarrow> nat \<Rightarrow> nat" where
  "rslot_of w pos = nat (sint (pack_key7 (take 7 (drop 7 (del_string w pos)))))"

definition dcount_word :: "string \<Rightarrow> (nat \<Rightarrow> u32) \<Rightarrow> (nat \<Rightarrow> u32)" where
  "dcount_word w counts =
     fold (\<lambda>pos c. let c1 = c(lslot_of w pos := c (lslot_of w pos) + 1)
                    in c1(rslot_of w pos := c1 (rslot_of w pos) + 1))
          [0..<KEYWORD_LEN] counts"

definition dcount_pass :: "(nat \<Rightarrow> string) \<Rightarrow> nat \<Rightarrow> (nat \<Rightarrow> u32)" where
  "dcount_pass kw n = fold (\<lambda>wid c. dcount_word (kw wid) c) [0..<n] (\<lambda>_. 0)"

definition packed_idpos :: "nat \<Rightarrow> nat \<Rightarrow> u32" where
  "packed_idpos wid pos = (word_of_nat wid AND 0xFFFFF) OR push_bit 20 (word_of_nat pos)"

definition dfill_word ::
  "nat \<Rightarrow> string \<Rightarrow> (nat \<Rightarrow> int) \<times> u32 list \<Rightarrow> (nat \<Rightarrow> int) \<times> u32 list" where
  "dfill_word wid w =
     fold (\<lambda>pos (cursor, idpos).
             (let v = packed_idpos wid pos;
                  l = lslot_of w pos;
                  r = rslot_of w pos;
                  idpos1 = idpos[nat (cursor l) := v];
                  cursor1 = cursor(l := cursor l + 1);
                  idpos2 = idpos1[nat (cursor1 r) := v];
                  cursor2 = cursor1(r := cursor1 r + 1)
              in (cursor2, idpos2)))
          [0..<KEYWORD_LEN]"

definition build_dindex :: "CaseFilterIndex \<Rightarrow> CaseFilterIndex" where
  "build_dindex idx =
     (let n = nat (keyword_count idx);
          counts = dcount_pass (keywords_arr idx) n;
          offsets = prefix_offsets CASEFILTER_DEL_KEY_SPACE counts;
          total_ids = offsets CASEFILTER_DEL_KEY_SPACE;
          idpos0 = replicate (nat total_ids) 0;
          filled = fold (\<lambda>wid. dfill_word wid (keywords_arr idx wid)) [0..<n] (offsets, idpos0)
      in idx\<lparr> del7 := \<lparr> d_key_space = int CASEFILTER_DEL_KEY_SPACE,
                         d_offsets = offsets, d_counts = counts, d_idpos = snd filled \<rparr> \<rparr>)"

definition casefilter_finalize :: "CaseFilterIndex \<Rightarrow> CaseFilterIndex" where
  "casefilter_finalize idx = build_dindex (build_hindex idx)"

text \<open>An index as the preparation driver produces it: created, fed the words of the
  dictionary in order, finalized.\<close>

definition insert_all :: "CaseFilterIndex \<Rightarrow> string list \<Rightarrow> CaseFilterIndex" where
  "insert_all idx ws = foldl (\<lambda>i w. casefilter_insert i (Some w)) idx ws"

definition build_index :: "string list \<Rightarrow> CaseFilterIndex" where
  "build_index ws = casefilter_finalize (insert_all (casefilter_create 1024) ws)"

section \<open>Search\<close>

text \<open>The function-static variables \<open>visited_buf\<close>, \<open>visited_cap\<close> and \<open>gen\<close> of
  \<open>casefilter_search\<close> are the search state, passed in and returned.  \<open>None\<close> is the
  \<open>NULL\<close> buffer.\<close>

record search_state =
  visited_buf :: "(nat \<Rightarrow> u32) option"
  visited_cap :: int
  gen :: u32

definition initial_state :: search_state where
  "initial_state = \<lparr> visited_buf = None, visited_cap = 0, gen = 1 \<rparr>"

record pair_probe =
  pp_start :: int
  pp_len :: int

definition query_pairs :: "CaseFilterIndex \<Rightarrow> string \<Rightarrow> pair_probe list" where
  "query_pairs idx query =
     map (\<lambda>p. \<lparr> pp_start = h_offsets (hidx idx) (hslot query p),
                pp_len = h_offsets (hidx idx) (hslot query p + 1)
                           - h_offsets (hidx idx) (hslot query p) \<rparr>)
         [0..<10]"

text \<open>The sort of \<open>order\<close>: for every \<open>i\<close> and every \<open>j > i\<close>, swap \<open>order[i]\<close> and \<open>order[j]\<close>
  when the posting at \<open>order[i]\<close> is longer than the one at \<open>order[j]\<close>.\<close>

definition sort_step :: "pair_probe list \<Rightarrow> nat \<Rightarrow> nat \<Rightarrow> nat list \<Rightarrow> nat list" where
  "sort_step pairs i j order =
     (if pp_len (pairs ! (order ! i)) > pp_len (pairs ! (order ! j))
      then order[i := order ! j, j := order ! i] else order)"

definition sort_order :: "pair_probe list \<Rightarrow> nat list" where
  "sort_order pairs =
     fold (\<lambda>i ord. fold (\<lambda>j ord'. sort_step pairs i j ord') [i + 1..<10] ord) [0..<10] [0..<10]"

definition probe_order :: "CaseFilterIndex \<Rightarrow> string \<Rightarrow> nat list" where
  "probe_order idx query = sort_order (query_pairs idx query)"

text \<open>Phase A: the posting of a probe, the scan of one posting and the loop over the
  probes in sorted order.  \<open>True\<close> is the early \<open>return 1\<close>.\<close>

definition posting_a :: "CaseFilterIndex \<Rightarrow> pair_probe \<Rightarrow> int list" where
  "posting_a idx pr =
     map (\<lambda>i. h_ids (hidx idx) ! nat (pp_start pr + int i)) [0..<nat (pp_len pr)]"

fun scan_a :: "(nat \<Rightarrow> u64) \<Rightarrow> u64 \<Rightarrow> int \<Rightarrow> u32 \<Rightarrow> int list \<Rightarrow> (nat \<Rightarrow> u32)
    \<Rightarrow> bool \<times> (nat \<Rightarrow> u32)" where
  "scan_a cds qcode k g [] visited = (False, visited)"
| "scan_a cds qcode k g (wid # rest) visited =
     (if visited (nat wid) = g then scan_a cds qcode k g rest visited
      else if hamming_packed15 qcode (cds (nat wid)) \<le> k then (True, visited(nat wid := g))
      else scan_a cds qcode k g rest (visited(nat wid := g)))"

fun phase_a :: "CaseFilterIndex \<Rightarrow> pair_probe list \<Rightarrow> u64 \<Rightarrow> int \<Rightarrow> u32 \<Rightarrow> nat list
    \<Rightarrow> (nat \<Rightarrow> u32) \<Rightarrow> bool \<times> (nat \<Rightarrow> u32)" where
  "phase_a idx pairs qcode k g [] visited = (False, visited)"
| "phase_a idx pairs qcode k g (p # ps) visited =
     (if pp_len (pairs ! p) = 0 then phase_a idx pairs qcode k g ps visited
      else (case scan_a (codes idx) qcode k g (posting_a idx (pairs ! p)) visited of
              (True, visited') \<Rightarrow> (True, visited')
            | (False, visited') \<Rightarrow> phase_a idx pairs qcode k g ps visited'))"

text \<open>Phase B: the posting of a deletion slot (empty unless \<open>end > start\<close>), the scan of
  one posting (marking only on a hit) and the loop over the deletion positions.\<close>

definition posting_d :: "CaseFilterIndex \<Rightarrow> nat \<Rightarrow> u32 list" where
  "posting_d idx slot =
     (let s = d_offsets (del7 idx) slot; e = d_offsets (del7 idx) (slot + 1)
      in if e > s then map (\<lambda>i. d_idpos (del7 idx) ! nat (s + int i)) [0..<nat (e - s)] else [])"

fun scan_b :: "(nat \<Rightarrow> u64) \<Rightarrow> u64 \<Rightarrow> int \<Rightarrow> u32 \<Rightarrow> u32 list \<Rightarrow> (nat \<Rightarrow> u32)
    \<Rightarrow> bool \<times> (nat \<Rightarrow> u32)" where
  "scan_b cds qdel_code k g [] visited = (False, visited)"
| "scan_b cds qdel_code k g (v # rest) visited =
     (let wid = nat (sint (v AND 0xFFFFF)) in
      if visited wid = g then scan_b cds qdel_code k g rest visited
      else if 2 + hamming_packed14 qdel_code
                    (casefilter_pack_delete (cds wid) (unat (drop_bit 20 v AND 0xF))) \<le> k
           then (True, visited(wid := g))
           else scan_b cds qdel_code k g rest visited)"

definition qdel_string :: "string \<Rightarrow> nat \<Rightarrow> string" where
  "qdel_string query pos = take pos query @ take (KEYWORD_LEN - pos - 1) (drop (pos + 1) query)"

fun phase_b :: "CaseFilterIndex \<Rightarrow> string \<Rightarrow> u64 \<Rightarrow> int \<Rightarrow> u32 \<Rightarrow> nat list
    \<Rightarrow> (nat \<Rightarrow> u32) \<Rightarrow> bool \<times> (nat \<Rightarrow> u32)" where
  "phase_b idx query qcode k g [] visited = (False, visited)"
| "phase_b idx query qcode k g (pos # rest) visited =
     (let qdel_code = casefilter_pack_delete qcode pos;
          qdel = qdel_string query pos;
          lslot = nat (sint (pack_key7 (take 7 qdel)));
          rslot = nat (sint (pack_key7 (take 7 (drop 7 qdel))))
      in case scan_b (codes idx) qdel_code k g (posting_d idx lslot) visited of
           (True, visited') \<Rightarrow> (True, visited')
         | (False, visited') \<Rightarrow>
             (case scan_b (codes idx) qdel_code k g (posting_d idx rslot) visited' of
                (True, visited'') \<Rightarrow> (True, visited'')
              | (False, visited'') \<Rightarrow> phase_b idx query qcode k g rest visited''))"

text \<open>\<open>casefilter_search\<close>.  \<open>query\<close> is the content of the C string (so \<open>strlen\<close> is its
  length); allocation of the visited buffer succeeds whenever it is requested.\<close>

definition casefilter_search ::
  "CaseFilterIndex \<Rightarrow> string \<Rightarrow> int \<Rightarrow> search_state \<Rightarrow> int \<times> search_state" where
  "casefilter_search idx query k st =
     (if int (length query) \<noteq> int KEYWORD_LEN then (0, st)
      else
        let kw_count = keyword_count idx;
            st1 = (if kw_count > visited_cap st
                   then \<lparr> visited_buf = Some (\<lambda>_. 0), visited_cap = kw_count, gen = 1 \<rparr>
                   else st)
        in case visited_buf st1 of
             None \<Rightarrow> (0, st1)
           | Some buf \<Rightarrow>
               (let g1 = gen st1 + 1;
                    visited1 = (if g1 = 0 then (\<lambda>_. 0) else buf);
                    g2 = (if g1 = 0 then 1 else g1);
                    qcode = pack_keyword query;
                    pairs = query_pairs idx query;
                    order = sort_order pairs;
                    ra = phase_a idx pairs qcode k g2 order visited1
                in if fst ra
                   then (1, \<lparr> visited_buf = Some (snd ra), visited_cap = visited_cap st1, gen = g2 \<rparr>)
                   else
                     (let g3 = g2 + 1;
                          rb = phase_b idx query qcode k g3 [0..<KEYWORD_LEN] (snd ra)
                      in (if fst rb then 1 else 0,
                          \<lparr> visited_buf = Some (snd rb), visited_cap = visited_cap st1,
                            gen = g3 \<rparr>))))"

text \<open>Running a sequence of queries in one process: the results in order, and the
  final state.\<close>

fun search_all :: "CaseFilterIndex \<Rightarrow> string list \<Rightarrow> search_state \<Rightarrow> int list \<times> search_state"
  where
  "search_all idx [] st = ([], st)"
| "search_all idx (q # qs) st =
     (let r = casefilter_search idx q 3 st; rs = search_all idx qs (snd r)
      in (fst r # fst rs, snd rs))"

section \<open>Serialization and deserialization\<close>

text \<open>
  The file is a list of bytes.  Integers are written as raw host bytes; the host is
  little-endian with a 4-byte \<open>int\<close>.  \<open>le16\<close>, \<open>le32\<close> are the byte images of a
  \<open>uint16_t\<close> and of a 32-bit value, \<open>word16_of\<close>, \<open>word32_of\<close> read them back.
  \<open>triple_bytes\<close> is the 3-byte buffer \<open>{v & 0xFF, (v >> 8) & 0xFF, (v >> 16) & 0xFF}\<close>,
  \<open>triple_word\<close> the value \<open>buf[0] | (buf[1] << 8) | (buf[2] << 16)\<close>.
\<close>

definition le16 :: "16 word \<Rightarrow> u8 list" where
  "le16 w = [ucast w, ucast (drop_bit 8 w)]"

definition le32 :: "u32 \<Rightarrow> u8 list" where
  "le32 w = [ucast w, ucast (drop_bit 8 w), ucast (drop_bit 16 w), ucast (drop_bit 24 w)]"

definition word16_of :: "u8 list \<Rightarrow> 16 word" where
  "word16_of bs = ucast (bs ! 0) OR push_bit 8 (ucast (bs ! 1))"

definition word32_of :: "u8 list \<Rightarrow> u32" where
  "word32_of bs = ucast (bs ! 0) OR push_bit 8 (ucast (bs ! 1))
       OR push_bit 16 (ucast (bs ! 2)) OR push_bit 24 (ucast (bs ! 3))"

definition triple_bytes :: "u32 \<Rightarrow> u8 list" where
  "triple_bytes v = [ucast (v AND 0xFF), ucast (drop_bit 8 v AND 0xFF), ucast (drop_bit 16 v AND 0xFF)]"

definition triple_word :: "u8 list \<Rightarrow> u32" where
  "triple_word buf = ucast (buf ! 0) OR push_bit 8 (ucast (buf ! 1)) OR push_bit 16 (ucast (buf ! 2))"

definition byte_of_char :: "char \<Rightarrow> u8" where
  "byte_of_char c = of_char c"

definition char_of_byte :: "u8 \<Rightarrow> char" where
  "char_of_byte b = char_of (unat b)"

definition write_int :: "int \<Rightarrow> u8 list" where
  "write_int x = le32 (word_of_int x)"

subsection \<open>Writing\<close>

text \<open>\<open>max_count\<close> is the loop \<open>if (counts[i] > maxc) maxc = counts[i]\<close>; \<open>counts_bytes\<close>
  the narrow or wide image of the counts, chosen by \<open>count_bits\<close>.\<close>

definition max_count :: "(nat \<Rightarrow> u32) \<Rightarrow> nat \<Rightarrow> u32" where
  "max_count counts slots = fold (\<lambda>i maxc. if counts i > maxc then counts i else maxc) [0..<slots] 0"

definition count_bits_of :: "u32 \<Rightarrow> u8" where
  "count_bits_of maxc = (if maxc \<le> 0xFFFF then 16 else 32)"

definition counts_bytes :: "u8 \<Rightarrow> (nat \<Rightarrow> u32) \<Rightarrow> nat \<Rightarrow> u8 list" where
  "counts_bytes count_bits counts slots =
     (if count_bits = 16 then concat (map (\<lambda>i. le16 (ucast (counts i))) [0..<slots])
      else concat (map (\<lambda>i. le32 (counts i)) [0..<slots]))"

definition serialize_hindex :: "HIndex \<Rightarrow> u8 list" where
  "serialize_hindex h =
     (let slots = nat (h_key_space h * h_pair_count h);
          count_bits = count_bits_of (max_count (h_counts h) slots);
          total_ids = h_offsets h slots
      in write_int (h_key_space h) @ write_int (h_pair_count h) @ [count_bits]
         @ counts_bytes count_bits (h_counts h) slots
         @ write_int total_ids
         @ concat (map (\<lambda>i. triple_bytes (word_of_int (h_ids h ! i))) [0..<nat total_ids]))"

definition serialize_dindex :: "DelIndex \<Rightarrow> u8 list" where
  "serialize_dindex d =
     (let slots = nat (d_key_space d);
          count_bits = count_bits_of (max_count (d_counts d) slots);
          total_ids = d_offsets d slots
      in write_int (d_key_space d) @ [count_bits]
         @ counts_bytes count_bits (d_counts d) slots
         @ write_int total_ids
         @ concat (map (\<lambda>i. triple_bytes (d_idpos d ! i AND 0xFFFFFF)) [0..<nat total_ids]))"

definition casefilter_serialize :: "CaseFilterIndex \<Rightarrow> u8 list" where
  "casefilter_serialize idx =
     write_int (keyword_count idx)
     @ concat (map (\<lambda>i. map byte_of_char (keywords_arr idx i)) [0..<nat (keyword_count idx)])
     @ serialize_hindex (hidx idx)
     @ serialize_dindex (del7 idx)"

subsection \<open>Reading\<close>

text \<open>
  A reader consumes bytes from the front of the stream and fails (\<open>None\<close>, the \<open>NULL\<close>
  return of \<open>casefilter_deserialize\<close>) on a short read.  \<open>fread_bytes n\<close> is a
  \<open>fread\<close> of \<open>n\<close> bytes that must deliver all of them; \<open>rbind\<close> sequences two reads.
  A negative element count, which the C code converts to a huge \<open>size_t\<close>, can never be
  delivered and is a failure.
\<close>

type_synonym 'a reader = "u8 list \<Rightarrow> ('a \<times> u8 list) option"

definition rreturn :: "'a \<Rightarrow> 'a reader" where
  "rreturn x s = Some (x, s)"

definition rfail :: "'a reader" where
  "rfail s = None"

definition rbind :: "'a reader \<Rightarrow> ('a \<Rightarrow> 'b reader) \<Rightarrow> 'b reader" where
  "rbind p f s = (case p s of None \<Rightarrow> None | Some (x, r) \<Rightarrow> f x r)"

definition fread_bytes :: "nat \<Rightarrow> (u8 list) reader" where
  "fread_bytes n s = (if length s < n then None else Some (take n s, drop n s))"

definition fread_items :: "nat \<Rightarrow> int \<Rightarrow> (u8 list) reader" where
  "fread_items sz n = (if n < 0 then rfail else fread_bytes (sz * nat n))"

definition read_int :: "int reader" where
  "read_int = rbind (fread_bytes 4) (\<lambda>bs. rreturn (sint (word32_of bs)))"

definition read_byte :: "u8 reader" where
  "read_byte = rbind (fread_bytes 1) (\<lambda>bs. rreturn (bs ! 0))"

text \<open>The elements of an array read in one piece: element \<open>i\<close> of size \<open>k\<close> is the bytes
  \<open>[i * k, i * k + k)\<close>.\<close>

definition items_of :: "nat \<Rightarrow> nat \<Rightarrow> u8 list \<Rightarrow> u8 list list" where
  "items_of k n bs = map (\<lambda>i. take k (drop (i * k) bs)) [0..<n]"

definition array_of :: "'a::zero list \<Rightarrow> nat \<Rightarrow> 'a" where
  "array_of xs i = (if i < length xs then xs ! i else 0)"

definition read_counts :: "u8 \<Rightarrow> int \<Rightarrow> (nat \<Rightarrow> u32) reader" where
  "read_counts count_bits slots =
     (if count_bits = 16
      then rbind (fread_items 2 slots)
             (\<lambda>bs. rreturn (array_of (map (\<lambda>b. ucast (word16_of b)) (items_of 2 (nat slots) bs))))
      else rbind (fread_items 4 slots)
             (\<lambda>bs. rreturn (array_of (map word32_of (items_of 4 (nat slots) bs)))))"

text \<open>The payload loop: one \<open>fread\<close> of 3 bytes per entry.\<close>

fun read_triples :: "nat \<Rightarrow> (u32 list) reader" where
  "read_triples 0 = rreturn []"
| "read_triples (Suc n) =
     rbind (fread_bytes 3) (\<lambda>buf. rbind (read_triples n) (\<lambda>rest. rreturn (triple_word buf # rest)))"

definition read_keywords :: "int \<Rightarrow> (nat \<Rightarrow> string) reader" where
  "read_keywords n =
     rbind (fread_items 16 n)
       (\<lambda>bs. rreturn (\<lambda>i. if i < nat n then map char_of_byte (take 16 (drop (i * 16) bs)) else []))"

text \<open>The pair-index block up to its counts, and the whole block with the cross-check
  of the stored total against the prefix sum.\<close>

definition read_hcounts :: "(int \<times> int \<times> (nat \<Rightarrow> u32)) reader" where
  "read_hcounts =
     rbind read_int (\<lambda>key_space.
     rbind read_int (\<lambda>pair_count.
     rbind read_byte (\<lambda>count_bits.
     rbind (read_counts count_bits (key_space * pair_count)) (\<lambda>counts.
     rreturn (key_space, pair_count, counts)))))"

definition read_hindex :: "HIndex reader" where
  "read_hindex =
     rbind read_hcounts (\<lambda>(key_space, pair_count, counts).
     (let h_slots = nat (key_space * pair_count);
          offsets = prefix_offsets h_slots counts
      in rbind read_int (\<lambda>h_total_ids_file.
         if offsets h_slots \<noteq> h_total_ids_file then rfail
         else rbind (read_triples (nat (offsets h_slots))) (\<lambda>ids.
              rreturn \<lparr> h_key_space = key_space, h_pair_count = pair_count,
                        h_offsets = offsets, h_counts = counts,
                        h_ids = map sint ids \<rparr>))))"

definition read_dcounts :: "(int \<times> (nat \<Rightarrow> u32)) reader" where
  "read_dcounts =
     rbind read_int (\<lambda>key_space.
     rbind read_byte (\<lambda>count_bits.
     rbind (read_counts count_bits key_space) (\<lambda>counts.
     rreturn (key_space, counts))))"

definition read_dindex :: "DelIndex reader" where
  "read_dindex =
     rbind read_dcounts (\<lambda>(key_space, counts).
     (let slots = nat key_space;
          offsets = prefix_offsets slots counts
      in rbind read_int (\<lambda>del_total_ids_file.
         if offsets slots \<noteq> del_total_ids_file then rfail
         else rbind (read_triples (nat (offsets slots))) (\<lambda>idpos.
              rreturn \<lparr> d_key_space = key_space, d_offsets = offsets, d_counts = counts,
                        d_idpos = idpos \<rparr>))))"

definition read_header :: "(int \<times> (nat \<Rightarrow> string)) reader" where
  "read_header =
     rbind read_int (\<lambda>keyword_count.
     rbind (read_keywords keyword_count) (\<lambda>kws.
     rreturn (keyword_count, kws)))"

definition read_index :: "CaseFilterIndex reader" where
  "read_index =
     rbind read_header (\<lambda>(kc, kws).
     rbind read_hindex (\<lambda>h.
     rbind read_dindex (\<lambda>d.
     rreturn \<lparr> keywords_arr = kws, keyword_count = kc, keyword_cap = kc,
               codes = (\<lambda>i. if i < nat kc then pack_keyword (kws i) else 0),
               hidx = h, del7 = d \<rparr>)))"

definition casefilter_deserialize :: "u8 list \<Rightarrow> CaseFilterIndex option" where
  "casefilter_deserialize s = map_option fst (read_index s)"

section \<open>Auxiliary notions for the proofs\<close>

text \<open>
  The two build loops of a CSR table, abstracted over the sequence of postings
  \<open>(slot, payload)\<close> they run through: \<open>csr_count\<close> is the counting pass, \<open>csr_fill\<close> the
  scatter pass.  \<open>hpostings\<close> and \<open>dpostings\<close> are the sequences \<open>build_hindex\<close> and
  \<open>build_dindex\<close> run through.
\<close>

definition csr_count :: "(nat \<times> 'a) list \<Rightarrow> (nat \<Rightarrow> u32) \<Rightarrow> (nat \<Rightarrow> u32)" where
  "csr_count ps = fold (\<lambda>(s, v) c. c(s := c s + 1)) ps"

definition csr_fill ::
  "(nat \<times> 'a) list \<Rightarrow> (nat \<Rightarrow> int) \<times> 'a list \<Rightarrow> (nat \<Rightarrow> int) \<times> 'a list" where
  "csr_fill ps = fold (\<lambda>(s, v) (cursor, arr). (cursor(s := cursor s + 1), arr[nat (cursor s) := v])) ps"

definition hpostings :: "(nat \<Rightarrow> string) \<Rightarrow> nat \<Rightarrow> (nat \<times> int) list" where
  "hpostings kw n =
     concat (map (\<lambda>wid. map (\<lambda>p. (hslot (kw wid) p, int wid)) [0..<CASEFILTER_HPAIR_COUNT]) [0..<n])"

definition dpostings :: "(nat \<Rightarrow> string) \<Rightarrow> nat \<Rightarrow> (nat \<times> u32) list" where
  "dpostings kw n =
     concat (map (\<lambda>wid. concat (map (\<lambda>pos. [(lslot_of (kw wid) pos, packed_idpos wid pos),
                                              (rslot_of (kw wid) pos, packed_idpos wid pos)])
                                   [0..<KEYWORD_LEN])) [0..<n])"

definition slot_count :: "(nat \<times> 'a) list \<Rightarrow> nat \<Rightarrow> nat" where
  "slot_count ps s = length (filter (\<lambda>x. fst x = s) ps)"

definition slot_start :: "(nat \<times> 'a) list \<Rightarrow> nat \<Rightarrow> nat" where
  "slot_start ps s = sum (slot_count ps) {..<s}"

definition slot_payload :: "(nat \<times> 'a) list \<Rightarrow> nat \<Rightarrow> 'a list" where
  "slot_payload ps s = map snd (filter (\<lambda>x. fst x = s) ps)"

text \<open>The dictionary held by an index: the first 15 bytes of each stored record.\<close>

definition dict_word :: "CaseFilterIndex \<Rightarrow> nat \<Rightarrow> string" where
  "dict_word idx wid = take KEYWORD_LEN (keywords_arr idx wid)"

text \<open>The state of the visited set is sound for the next search when no mark is ahead
  of the generation counter (and no buffer means none was requested yet).\<close>

definition marks_behind :: "search_state \<Rightarrow> bool" where
  "marks_behind st =
     (case visited_buf st of
        None \<Rightarrow> visited_cap st \<le> 0
      | Some buf \<Rightarrow> (\<forall>i. buf i \<le> gen st))"

text \<open>Levenshtein distance, by the usual recursion on the two strings.\<close>

fun levenshtein :: "'a list \<Rightarrow> 'a list \<Rightarrow> nat" where
  "levenshtein [] ys = length ys"
| "levenshtein xs [] = length xs"
| "levenshtein (x # xs) (y # ys) =
     min (min (levenshtein xs (y # ys) + 1) (levenshtein (x # xs) ys + 1))
         (levenshtein xs ys + (if x = y then 0 else 1))"


text \<open>The payload as it comes back from a file: ids and packed entries cut to their low
  24 bits.\<close>

definition trunc24_int :: "int \<Rightarrow> int" where
  "trunc24_int x = sint ((word_of_int x :: u32) AND 0xFFFFFF)"

section \<open>Properties of the nibble codec\<close>

lemma nib64_valid: "valid_sym c \<Longrightarrow> nib64 c = word_of_nat (sym_val c)"
  by (auto simp add: valid_sym_def nib64_def char_val_def sym_val_def)

lemma sym_val_less: "valid_sym c \<Longrightarrow> sym_val c < 10"
  by (auto simp add: valid_sym_def sym_val_def)

lemma sym_val_inj: "valid_sym c \<Longrightarrow> valid_sym d \<Longrightarrow> sym_val c = sym_val d \<Longrightarrow> c = d"
  by (auto simp add: valid_sym_def sym_val_def)

lemma bit_nat_less16:
  fixes d :: nat
  assumes "d < 16" and "bit d k"
  shows "k < 4"
proof -
  have "take_bit 4 d = d" using assms(1) by (simp add: take_bit_nat_eq_self)
  then have "bit (take_bit 4 d) k" using assms(2) by simp
  then show ?thesis by (simp add: bit_take_bit_iff)
qed

lemma nib64_bit_less4: "bit (nib64 c) k \<Longrightarrow> k < 4"
proof -
  assume "bit (nib64 c) k"
  then have "bit (15 :: u64) k" by (simp add: nib64_def bit_and_iff)
  then have "bit (mask 4 :: u64) k" by (simp add: mask_numeral)
  then show "k < 4" by (simp add: bit_mask_iff)
qed

lemma pack_loop_bit:
  "bit (fold (\<lambda>i v. v OR push_bit (i * 4) (nib64 (word ! i))) [0..<n] (0::u64)) k
     \<longleftrightarrow> k < 64 \<and> k div 4 < n \<and> bit (nib64 (word ! (k div 4))) (k mod 4)"
proof (induction n)
  case 0
  show ?case by simp
next
  case (Suc n)
  have a: "bit (push_bit (n * 4) (nib64 (word ! n))) k \<longleftrightarrow>
        k < 64 \<and> k div 4 = n \<and> bit (nib64 (word ! (k div 4))) (k mod 4)"
  proof
    assume h: "bit (push_bit (n * 4) (nib64 (word ! n))) k"
    then have 1: "n * 4 \<le> k" and 2: "k < 64" and 3: "bit (nib64 (word ! n)) (k - n * 4)"
      by (auto simp add: bit_push_bit_iff dest: bit_imp_le_length)
    from 3 have "k - n * 4 < 4" by (rule nib64_bit_less4)
    with 1 have "k div 4 = n" "k mod 4 = k - n * 4" by presburger+
    with 2 3 show "k < 64 \<and> k div 4 = n \<and> bit (nib64 (word ! (k div 4))) (k mod 4)" by simp
  next
    assume h: "k < 64 \<and> k div 4 = n \<and> bit (nib64 (word ! (k div 4))) (k mod 4)"
    then have "k div 4 = n" by simp
    then have "n * 4 \<le> k" "k mod 4 = k - n * 4" by presburger+
    with h show "bit (push_bit (n * 4) (nib64 (word ! n))) k"
      by (auto simp add: bit_push_bit_iff)
  qed
  show ?case
    by (simp add: bit_or_iff Suc.IH a del: upt_Suc add: upt_Suc_append) (auto simp: less_Suc_eq)
qed

lemma pack_keyword_bit:
  "bit (pack_keyword word) k \<longleftrightarrow> k < 60 \<and> bit (nib64 (word ! (k div 4))) (k mod 4)"
  unfolding pack_keyword_def KEYWORD_LEN_def pack_loop_bit by auto

lemma digits16_bit:
  "list_all (\<lambda>d. d < 16) ds \<Longrightarrow>
   bit (digits16 ds) k \<longleftrightarrow> k div 4 < length ds \<and> bit (ds ! (k div 4)) (k mod 4)"
proof (induction ds arbitrary: k)
  case Nil
  show ?case by simp
next
  case (Cons d ds)
  then have vd: "d < 16" and vds: "list_all (\<lambda>d. d < 16) ds" by simp_all
  have disj: "d + 16 * digits16 ds = d OR push_bit 4 (digits16 ds)"
  proof -
    have "d + push_bit 4 (digits16 ds) = d OR push_bit 4 (digits16 ds)"
    proof (rule disjunctive_add)
      fix n
      show "\<not> bit d n \<or> \<not> bit (push_bit 4 (digits16 ds)) n"
        using bit_nat_less16 [OF vd, of n] by (auto simp add: bit_push_bit_iff)
    qed
    then show ?thesis by (simp add: push_bit_eq_mult)
  qed
  show ?case
  proof (cases "k < 4")
    case True
    then have "k div 4 = 0" "k mod 4 = k" by simp_all
    with True show ?thesis
      by (auto simp add: disj bit_or_iff bit_push_bit_iff)
  next
    case False
    then have k: "4 \<le> k" "k div 4 = Suc ((k - 4) div 4)" "k mod 4 = (k - 4) mod 4" by presburger+
    have "\<not> bit d k" using bit_nat_less16 [OF vd] False by blast
    then show ?thesis using k
      by (auto simp add: disj bit_or_iff bit_push_bit_iff Cons.IH [OF vds])
  qed
qed

lemma nibble_code_bit:
  assumes "list_all valid_sym cs"
  shows "bit (nibble_code cs) k \<longleftrightarrow>
     k < 64 \<and> k div 4 < length cs \<and> bit (sym_val (cs ! (k div 4))) (k mod 4)"
proof -
  have "list_all (\<lambda>d. d < 16) (map sym_val cs)"
    using assms sym_val_less by (fastforce simp add: list_all_iff)
  then show ?thesis
    by (auto simp add: nibble_code_def bit_of_nat_iff digits16_bit dest: bit_imp_le_length)
qed

lemma nib64_bit_valid:
  "valid_sym c \<Longrightarrow> bit (nib64 c) j \<longleftrightarrow> bit (sym_val c) j"
proof -
  assume v: "valid_sym c"
  have "sym_val c < 16" using sym_val_less [OF v] by simp
  then have "bit (sym_val c) j \<Longrightarrow> j < 64" using bit_nat_less16 [of "sym_val c" j] by simp
  then show ?thesis by (auto simp add: nib64_valid [OF v] bit_of_nat_iff)
qed

lemma pack_keyword_eq_nibble_code:
  assumes "valid_word w"
  shows "pack_keyword w = nibble_code w"
proof (rule bit_eqI)
  fix k
  from assms have len: "length w = 15" and v: "list_all valid_sym w"
    by (simp_all add: valid_word_def)
  have "k < 60 \<Longrightarrow> valid_sym (w ! (k div 4))"
    using v len by (simp add: list_all_length)
  moreover have "k < 60 \<longleftrightarrow> k < 64 \<and> k div 4 < 15" by presburger
  ultimately show "bit (pack_keyword w) k = bit (nibble_code w) k"
    by (auto simp add: pack_keyword_bit nibble_code_bit [OF v] len nib64_bit_valid)
qed

lemma pack_delete_bit:
  "p < 15 \<Longrightarrow> bit (casefilter_pack_delete code p) k \<longleftrightarrow>
     (if k < p * 4 then bit code k else k < 64 \<and> bit code (k + 4))"
  by (auto simp add: casefilter_pack_delete_def Let_def bit_or_iff bit_and_iff bit_push_bit_iff
      bit_drop_bit_eq push_bit_of_1 bit_mask_iff add.commute simp flip: mask_eq_exp_minus_1
      dest: bit_imp_le_length)

lemma valid_delete_at:
  assumes "valid_word w" and "p < 15"
  shows "length (delete_at p w) = 14" and "list_all valid_sym (delete_at p w)"
    and "\<And>j. j < 14 \<Longrightarrow> delete_at p w ! j = (if j < p then w ! j else w ! Suc j)"
proof -
  from assms have len: "length w = 15" and v: "list_all valid_sym w"
    by (simp_all add: valid_word_def)
  show "length (delete_at p w) = 14" using len assms(2) by (simp add: delete_at_def)
  show "list_all valid_sym (delete_at p w)"
    using v by (auto simp add: delete_at_def list_all_iff dest: in_set_takeD in_set_dropD)
  show "\<And>j. j < 14 \<Longrightarrow> delete_at p w ! j = (if j < p then w ! j else w ! Suc j)"
    using len assms(2) by (auto simp add: delete_at_def nth_append)
qed

lemma deletion_identity_aux:
  assumes "valid_word w" and "p < 15"
  shows "casefilter_pack_delete (pack_keyword w) p = nibble_code (delete_at p w)"
proof (rule bit_eqI)
  fix k
  from assms have len: "length w = 15" and v: "list_all valid_sym w"
    by (simp_all add: valid_word_def)
  have nv: "\<And>i j. i < 15 \<Longrightarrow> bit (nib64 (w ! i)) j = bit (sym_val (w ! i)) j"
    using v len by (simp add: list_all_length nib64_bit_valid)
  note u = valid_delete_at [OF assms]
  show "bit (casefilter_pack_delete (pack_keyword w) p) k = bit (nibble_code (delete_at p w)) k"
  proof (cases "k < p * 4")
    case True
    then have "k div 4 < p" by presburger
    with True assms(2) show ?thesis
      by (auto simp add: pack_delete_bit pack_keyword_bit nibble_code_bit [OF u(2)] u(1) u(3) nv)
  next
    case False
    then have kd: "\<not> k div 4 < p" "(k + 4) div 4 = Suc (k div 4)" "(k + 4) mod 4 = k mod 4"
      by presburger+
    have "k + 4 < 60 \<longleftrightarrow> k div 4 < 14" by presburger
    with False kd assms(2) show ?thesis
      by (auto simp add: pack_delete_bit pack_keyword_bit nibble_code_bit [OF u(2)] u(1) u(3) nv)
  qed
qed

text \<open>
  C4.  Deletion identity: for a word \<open>w\<close> of length 15 over \<open>{A..J}\<close> and a position
  \<open>p < 15\<close>, \<open>casefilter_pack_delete\<close> applied to the packed code of \<open>w\<close> is the nibble
  code (over 14 nibbles) of \<open>w\<close> with the character at position \<open>p\<close> removed.
\<close>

theorem deletion_identity:
  assumes "valid_word w" and "p < 15"
  shows "casefilter_pack_delete (pack_keyword w) p = nibble_code (delete_at p w)"
  using assms by (rule deletion_identity_aux)

theorem deletion_identity_witness:
  "valid_word ''ABCDEFGHIJABCDE'' \<and> (3::nat) < 15 \<and>
   casefilter_pack_delete (pack_keyword ''ABCDEFGHIJABCDE'') 3
     = nibble_code (delete_at 3 ''ABCDEFGHIJABCDE'')"
proof -
  have v: "valid_word ''ABCDEFGHIJABCDE''" by (simp add: valid_word_def valid_sym_def)
  have p: "(3::nat) < 15" by simp
  show ?thesis using v p deletion_identity [OF v p] by simp
qed

section \<open>Correctness of the SWAR Hamming distance\<close>

lemma and_digit16:
  fixes d m r s :: nat
  assumes "d < 16" "m < 16"
  shows "(d + 16 * r) AND (m + 16 * s) = (d AND m) + 16 * (r AND s)"
proof -
  let ?X = "(d + 16 * r) AND (m + 16 * s)"
  have "?X = push_bit 4 (drop_bit 4 ?X) + take_bit 4 ?X" by (simp only: bits_ident)
  also have "take_bit 4 ?X = d AND m"
    unfolding take_bit_and using assms by (simp add: take_bit_eq_mod)
  also have "drop_bit 4 ?X = r AND s"
    unfolding drop_bit_and using assms by (simp add: drop_bit_eq_div)
  finally show ?thesis by (simp add: push_bit_eq_mult)
qed

lemma digits16_and:
  "length ds = length ms \<Longrightarrow> list_all (\<lambda>d. d < 16) ds \<Longrightarrow> list_all (\<lambda>d. d < 16) ms \<Longrightarrow>
   digits16 ds AND digits16 ms = digits16 (map2 (AND) ds ms)"
  by (induction ds ms rule: list_induct2) (simp_all add: and_digit16)

lemma sint_ucast_small:
  assumes "unat (w :: u64) < 2 ^ 31"
  shows "sint (ucast w :: u32) = int (unat w)"
proof -
  have "int (unat w) < int (2 ^ 31)" using assms by (simp only: of_nat_less_iff)
  then have u: "uint w < 2 ^ 31" by (simp only: uint_nat) simp
  have "uint (ucast w :: u32) = take_bit 32 (uint w)"
    by (simp only: unsigned_ucast_eq) simp
  also have "\<dots> = uint w"
    by (rule take_bit_int_eq_self) (use u in simp_all)
  finally have e: "uint (ucast w :: u32) = uint w" .
  have "sint (ucast w :: u32) = signed_take_bit 31 (uint w)"
    by (simp only: sint_uint e) simp
  also have "\<dots> = uint w"
  proof (rule signed_take_bit_int_eq_self)
    have "0 \<le> uint w" by simp
    moreover have "- (2 ^ 31) \<le> (0::int)" by simp
    ultimately show "- (2 ^ 31) \<le> uint w" by (rule order_trans [rotated])
    show "uint w < 2 ^ 31" by (fact u)
  qed
  finally show ?thesis by (simp only: uint_nat)
qed

text \<open>On a word whose set bits all sit at the low bit of a nibble, the first two reduction
  steps of \<open>popcount64\<close> change nothing, the third adds neighbouring nibbles into bytes
  and the multiplication sums the eight bytes into the top byte.\<close>

lemma popcount64_sparse:
  fixes d0 d1 d2 d3 d4 d5 d6 d7 d8 d9 d10 d11 d12 d13 d14 d15 :: nat
  assumes x: "unat (x::u64) = digits16 [d0,d1,d2,d3,d4,d5,d6,d7,d8,d9,d10,d11,d12,d13,d14,d15]"
    and d: "d0 \<le> 1" "d1 \<le> 1" "d2 \<le> 1" "d3 \<le> 1" "d4 \<le> 1" "d5 \<le> 1" "d6 \<le> 1" "d7 \<le> 1"
       "d8 \<le> 1" "d9 \<le> 1" "d10 \<le> 1" "d11 \<le> 1" "d12 \<le> 1" "d13 \<le> 1" "d14 \<le> 1" "d15 \<le> 1"
  shows "popcount64 x = int (d0+d1+d2+d3+d4+d5+d6+d7+d8+d9+d10+d11+d12+d13+d14+d15)"
proof -
  let ?ds = "[d0,d1,d2,d3,d4,d5,d6,d7,d8,d9,d10,d11,d12,d13,d14,d15]"
  have a1: "d AND 1 = d" if "d \<le> 1" for d :: nat
    using that by (cases "d = 0") (auto simp add: le_Suc_eq)
  have a15: "d AND 15 = d" if "d \<le> 2" for d :: nat
  proof -
    from that have "d = 0 \<or> d = 1 \<or> d = 2" by auto
    then show ?thesis by auto
  qed
  have m1: "(0x1111111111111111::nat) = digits16 [1,1,1,1,1,1,1,1,1,1,1,1,1,1,1,1]" by simp
  have "unat (x AND 0x1111111111111111) = digits16 ?ds AND digits16 [1,1,1,1,1,1,1,1,1,1,1,1,1,1,1,1]"
    by (simp only: unsigned_and_eq x flip: m1) simp
  also have "\<dots> = digits16 (map2 (AND) ?ds [1,1,1,1,1,1,1,1,1,1,1,1,1,1,1,1])"
    by (rule digits16_and) (use d in simp_all)
  also have "\<dots> = digits16 ?ds"
    using d by (simp add: a1)
  finally have xm: "x AND 0x1111111111111111 = x"
    by (simp only: word_unat_eq_iff x)
  have s1: "drop_bit 1 x AND 0x5555555555555555 = 0"
  proof -
    have "drop_bit 1 x AND 0x5555555555555555
        = drop_bit 1 (x AND 0x1111111111111111) AND 0x5555555555555555"
      by (simp only: xm)
    also have "\<dots> = drop_bit 1 x AND (drop_bit 1 (0x1111111111111111::u64) AND 0x5555555555555555)"
      by (simp only: drop_bit_and and.assoc)
    also have "drop_bit 1 (0x1111111111111111::u64) AND 0x5555555555555555 = 0" by simp
    finally show ?thesis by simp
  qed
  have s2a: "x AND 0x3333333333333333 = x"
  proof -
    have "x AND 0x3333333333333333 = (x AND 0x1111111111111111) AND 0x3333333333333333"
      by (simp only: xm)
    also have "\<dots> = x AND ((0x1111111111111111::u64) AND 0x3333333333333333)"
      by (simp only: and.assoc)
    also have "(0x1111111111111111::u64) AND 0x3333333333333333 = 0x1111111111111111" by simp
    finally show ?thesis by (simp only: xm)
  qed
  have s2b: "drop_bit 2 x AND 0x3333333333333333 = 0"
  proof -
    have "drop_bit 2 x AND 0x3333333333333333
        = drop_bit 2 (x AND 0x1111111111111111) AND 0x3333333333333333"
      by (simp only: xm)
    also have "\<dots> = drop_bit 2 x AND (drop_bit 2 (0x1111111111111111::u64) AND 0x3333333333333333)"
      by (simp only: drop_bit_and and.assoc)
    also have "drop_bit 2 (0x1111111111111111::u64) AND 0x3333333333333333 = 0" by simp
    finally show ?thesis by simp
  qed
  define c0 c1 c2 c3 c4 c5 c6 c7 where c: "c0 = d0 + d1" "c1 = d2 + d3" "c2 = d4 + d5"
    "c3 = d6 + d7" "c4 = d8 + d9" "c5 = d10 + d11" "c6 = d12 + d13" "c7 = d14 + d15"
  have cb: "c0 \<le> 2" "c1 \<le> 2" "c2 \<le> 2" "c3 \<le> 2" "c4 \<le> 2" "c5 \<le> 2" "c6 \<le> 2" "c7 \<le> 2"
    using d by (simp_all add: c)
  have sh: "unat (drop_bit 4 x) = digits16 [d1,d2,d3,d4,d5,d6,d7,d8,d9,d10,d11,d12,d13,d14,d15]"
  proof -
    have "unat (drop_bit 4 x) = drop_bit 4 (unat x)" by (rule unat_drop_bit_eq)
    also have "\<dots> = digits16 [d1,d2,d3,d4,d5,d6,d7,d8,d9,d10,d11,d12,d13,d14,d15]"
      unfolding x using d by (simp add: drop_bit_eq_div)
    finally show ?thesis .
  qed
  have sm: "unat (x + drop_bit 4 x) =
      digits16 [d0+d1,d1+d2,d2+d3,d3+d4,d4+d5,d5+d6,d6+d7,d7+d8,d8+d9,d9+d10,d10+d11,
        d11+d12,d12+d13,d13+d14,d14+d15,d15]"
  proof -
    have "unat x + unat (drop_bit 4 x) < 2 ^ 64"
      unfolding x sh using d by simp
    then have "unat (x + drop_bit 4 x) = unat x + unat (drop_bit 4 x)"
      by (simp add: unat_add_lem [THEN iffD1])
    then show ?thesis unfolding x sh by simp
  qed
  have mf: "(0x0F0F0F0F0F0F0F0F::nat) = digits16 [15,0,15,0,15,0,15,0,15,0,15,0,15,0,15,0]"
    by simp
  have "unat ((x + drop_bit 4 x) AND 0x0F0F0F0F0F0F0F0F) =
      digits16 [d0+d1,d1+d2,d2+d3,d3+d4,d4+d5,d5+d6,d6+d7,d7+d8,d8+d9,d9+d10,d10+d11,
        d11+d12,d12+d13,d13+d14,d14+d15,d15]
      AND digits16 [15,0,15,0,15,0,15,0,15,0,15,0,15,0,15,0]"
    by (simp only: unsigned_and_eq sm flip: mf) simp
  also have "\<dots> = digits16 (map2 (AND)
     [d0+d1,d1+d2,d2+d3,d3+d4,d4+d5,d5+d6,d6+d7,d7+d8,d8+d9,d9+d10,d10+d11,
        d11+d12,d12+d13,d13+d14,d14+d15,d15]
     [15,0,15,0,15,0,15,0,15,0,15,0,15,0,15,0])"
    by (rule digits16_and) (use d in simp_all)
  also have "\<dots> = digits16 [c0,0,c1,0,c2,0,c3,0,c4,0,c5,0,c6,0,c7,0]"
    using cb by (simp add: a15 flip: c)
  finally have x3: "unat ((x + drop_bit 4 x) AND 0x0F0F0F0F0F0F0F0F) =
     c0 + 256 * (c1 + 256 * (c2 + 256 * (c3 + 256 * (c4 + 256 * (c5 + 256 * (c6 + 256 * c7))))))"
    by simp
  define y where "y = unat ((x + drop_bit 4 x) AND 0x0F0F0F0F0F0F0F0F)"
  define S where "S = c0 + c1 + c2 + c3 + c4 + c5 + c6 + c7"
  define R where "R = c0 + 256 * ((c0 + c1) + 256 * ((c0 + c1 + c2) + 256 * ((c0 + c1 + c2 + c3)
      + 256 * ((c0+c1+c2+c3+c4) + 256 * ((c0+c1+c2+c3+c4+c5) + 256 * (c0+c1+c2+c3+c4+c5+c6))))))"
  define Q where "Q = c1 + c2 + c3 + c4 + c5 + c6 + c7
      + 256 * ((c2 + c3 + c4 + c5 + c6 + c7) + 256 * ((c3 + c4 + c5 + c6 + c7)
      + 256 * ((c4+c5+c6+c7) + 256 * ((c5+c6+c7) + 256 * ((c6+c7) + 256 * c7)))))"
  have yk: "y * 0x0101010101010101 = 2 ^ 64 * Q + (2 ^ 56 * S + R)"
    unfolding y_def x3 S_def R_def Q_def by (simp add: algebra_simps)
  have Rb: "R < 2 ^ 56" unfolding R_def using cb by simp
  have Sb: "S \<le> 16" unfolding S_def using cb by simp
  have "unat (((x + drop_bit 4 x) AND 0x0F0F0F0F0F0F0F0F) * 0x0101010101010101)
      = (y * 0x0101010101010101) mod 2 ^ 64"
    by (simp add: unat_word_ariths y_def)
  also have "\<dots> = 2 ^ 56 * S + R"
    unfolding yk using Rb Sb by simp
  finally have up: "unat (((x + drop_bit 4 x) AND 0x0F0F0F0F0F0F0F0F) * 0x0101010101010101)
      = 2 ^ 56 * S + R" .
  have us: "unat (drop_bit 56 (((x + drop_bit 4 x) AND 0x0F0F0F0F0F0F0F0F) * 0x0101010101010101)) = S"
    unfolding unat_drop_bit_eq up using Rb by (simp add: drop_bit_eq_div)
  have "popcount64 x
      = sint (ucast (drop_bit 56 (((x + drop_bit 4 x) AND 0x0F0F0F0F0F0F0F0F) * 0x0101010101010101)) :: u32)"
    by (simp only: popcount64_def Let_def s1 diff_zero s2a s2b add_0_right)
  also have "\<dots> = int S"
    by (subst sint_ucast_small) (use Sb in \<open>simp_all only: us\<close>, simp)
  finally show ?thesis by (simp add: S_def c)
qed

lemma length16_cases:
  assumes "length (ds :: 'a list) = 16"
  obtains d0 d1 d2 d3 d4 d5 d6 d7 d8 d9 d10 d11 d12 d13 d14 d15
  where "ds = [d0,d1,d2,d3,d4,d5,d6,d7,d8,d9,d10,d11,d12,d13,d14,d15]"
proof -
  from assms have "length ds = Suc (Suc (Suc (Suc (Suc (Suc (Suc (Suc (Suc (Suc (Suc (Suc (Suc
    (Suc (Suc (Suc 0)))))))))))))))" by simp
  then show ?thesis using that by (auto simp add: length_Suc_conv)
qed

lemma popcount64_digits:
  assumes "length ds = 16" and "list_all (\<lambda>d. d \<le> 1) ds" and "unat (x::u64) = digits16 ds"
  shows "popcount64 x = int (sum_list ds)"
proof -
  from assms(1) obtain d0 d1 d2 d3 d4 d5 d6 d7 d8 d9 d10 d11 d12 d13 d14 d15
    where ds: "ds = [d0,d1,d2,d3,d4,d5,d6,d7,d8,d9,d10,d11,d12,d13,d14,d15]"
    by (rule length16_cases)
  have "popcount64 x = int (d0+d1+d2+d3+d4+d5+d6+d7+d8+d9+d10+d11+d12+d13+d14+d15)"
    by (rule popcount64_sparse) (use assms(2,3) in \<open>simp_all add: ds\<close>)
  then show ?thesis by (simp add: ds)
qed

lemma nat_less16_neq_iff:
  fixes a b :: nat
  assumes "a < 16" "b < 16"
  shows "a \<noteq> b \<longleftrightarrow> (bit a 0 \<noteq> bit b 0 \<or> bit a 1 \<noteq> bit b 1 \<or> bit a 2 \<noteq> bit b 2 \<or> bit a 3 \<noteq> bit b 3)"
proof -
  have "a = b \<longleftrightarrow> (\<forall>n. bit a n = bit b n)" by (simp add: bit_eq_iff)
  also have "\<dots> \<longleftrightarrow> (\<forall>n<4. bit a n = bit b n)"
    using bit_nat_less16 [OF assms(1)] bit_nat_less16 [OF assms(2)] by blast
  also have "\<dots> \<longleftrightarrow> (bit a 0 = bit b 0 \<and> bit a 1 = bit b 1 \<and> bit a 2 = bit b 2 \<and> bit a 3 = bit b 3)"
  proof
    assume "\<forall>n<4. bit a n = bit b n"
    then show "bit a 0 = bit b 0 \<and> bit a 1 = bit b 1 \<and> bit a 2 = bit b 2 \<and> bit a 3 = bit b 3"
      by simp
  next
    assume h: "bit a 0 = bit b 0 \<and> bit a 1 = bit b 1 \<and> bit a 2 = bit b 2 \<and> bit a 3 = bit b 3"
    show "\<forall>n<4. bit a n = bit b n"
    proof (intro allI impI)
      fix n :: nat
      assume "n < 4"
      then have "n = 0 \<or> n = 1 \<or> n = 2 \<or> n = 3" by presburger
      with h show "bit a n = bit b n" by auto
    qed
  qed
  finally show ?thesis by blast
qed

lemma collapse_bit:
  fixes x M :: u64
  shows "bit (((x OR drop_bit 1 x) OR drop_bit 2 (x OR drop_bit 1 x)) AND M) k \<longleftrightarrow>
     bit M k \<and> (bit x k \<or> bit x (k + 1) \<or> bit x (k + 2) \<or> bit x (k + 3))"
proof -
  have e: "k + 3 = Suc (Suc (Suc k))" by simp
  show ?thesis
    by (auto simp add: bit_and_iff bit_or_iff bit_drop_bit_eq add.commute e)
qed

lemma hamming_sum_list:
  "hamming xs ys = sum_list (map2 (\<lambda>x y. of_bool (x \<noteq> y)) xs ys)"
  unfolding hamming_def
  by (induction xs ys rule: list_induct2') simp_all

lemma nibble_mask_bit:
  assumes "length ms \<le> 16" and "list_all (\<lambda>d. d = 1) ms"
  shows "bit (word_of_nat (digits16 ms) :: u64) k \<longleftrightarrow> k div 4 < length ms \<and> k mod 4 = 0"
proof -
  have "k div 4 < length ms \<Longrightarrow> k < 64" using assms(1) by presburger
  moreover have "list_all (\<lambda>d. d < 16) ms" using assms(2) by (simp add: list_all_length)
  moreover have "k div 4 < length ms \<Longrightarrow> ms ! (k div 4) = 1"
    using assms(2) by (simp add: list_all_length)
  ultimately show ?thesis
    by (auto simp add: bit_of_nat_iff digits16_bit bit_Suc_0_iff)
qed

lemma digits16_bound:
  "list_all (\<lambda>d. d < 16) ds \<Longrightarrow> digits16 ds < 16 ^ length ds"
proof (induction ds)
  case Nil
  show ?case by simp
next
  case (Cons d ds)
  then have "d < 16" and "digits16 ds < 16 ^ length ds" by simp_all
  then have "d + 16 * digits16 ds < 16 + 16 * digits16 ds" and "Suc (digits16 ds) \<le> 16 ^ length ds"
    by simp_all
  then have "d + 16 * digits16 ds < 16 * Suc (digits16 ds)" and "16 * Suc (digits16 ds) \<le> 16 * 16 ^ length ds"
    by simp_all
  then show ?case by simp
qed

lemma swar_hamming_generic:
  fixes M :: u64
  assumes lu: "length u = n" and lv: "length v = n" and nL: "n \<le> L" and L: "L \<le> 16"
    and vu: "list_all valid_sym u" and vv: "list_all valid_sym v"
    and M: "M = word_of_nat (digits16 ms)" and ms: "length ms = L" "list_all (\<lambda>d. d = 1) ms"
  shows "popcount64 ((((nibble_code u XOR nibble_code v)
            OR drop_bit 1 (nibble_code u XOR nibble_code v))
            OR drop_bit 2 ((nibble_code u XOR nibble_code v)
                 OR drop_bit 1 (nibble_code u XOR nibble_code v))) AND M)
         = int (hamming u v)"
    (is "popcount64 ?z = _")
proof -
  define ds :: "nat list" where
    "ds = map2 (\<lambda>x y. of_bool (x \<noteq> y)) u v @ replicate (16 - n) 0"
  have lds: "length ds = 16" using lu lv nL L by (simp add: ds_def)
  have ds_nth: "ds ! i = (if i < n then of_bool (u ! i \<noteq> v ! i) else 0)" if "i < 16" for i
    using that lu lv by (auto simp add: ds_def nth_append)
  have ds1: "list_all (\<lambda>d. d \<le> 1) ds"
    using lds by (simp add: list_all_length ds_nth)
  have ds16: "list_all (\<lambda>d. d < 16) ds"
    using lds by (simp add: list_all_length ds_nth)
  have sv: "sym_val (u ! i) < 16" "sym_val (v ! i) < 16" "valid_sym (u ! i)" "valid_sym (v ! i)"
    if "i < n" for i
    using that vu vv lu lv sym_val_less [of "u ! i"] sym_val_less [of "v ! i"]
    by (auto simp add: list_all_length)
  have Mb: "bit (word_of_nat (digits16 ms) :: u64) k \<longleftrightarrow> k div 4 < L \<and> k mod 4 = 0" for k
    using nibble_mask_bit [of ms k] ms L by simp
  define X where "X = nibble_code u XOR nibble_code v"
  have zb: "bit ?z k \<longleftrightarrow> bit M k \<and> (bit X k \<or> bit X (k + 1) \<or> bit X (k + 2) \<or> bit X (k + 3))"
    for k unfolding X_def by (rule collapse_bit)
  have z: "?z = word_of_nat (digits16 ds)"
  proof (rule bit_eqI)
    fix k
    show "bit ?z k = bit (word_of_nat (digits16 ds) :: u64) k"
    proof (cases "k div 4 < L \<and> k mod 4 = 0")
      case False
      then have "\<not> bit M k" by (simp only: M Mb) simp
      then have "\<not> bit ?z k" by (simp only: zb) simp
      moreover have "\<not> bit (word_of_nat (digits16 ds) :: u64) k"
      proof (cases "k div 4 < 16")
        case True
        with False nL have "k mod 4 \<noteq> 0 \<or> \<not> k div 4 < n" by auto
        then show ?thesis using True
          by (auto simp add: bit_of_nat_iff digits16_bit [OF ds16] lds ds_nth bit_Suc_0_iff)
      next
        case False
        then show ?thesis by (simp add: bit_of_nat_iff digits16_bit [OF ds16] lds)
      qed
      ultimately show ?thesis by simp
    next
      case True
      define i where "i = k div 4"
      from True have "k mod 4 = 0" by simp
      then have k: "k = 4 * i" unfolding i_def by presburger
      from True have iL: "i < L" by (simp add: i_def)
      then have i16: "i < 16" using L by simp
      then have k64: "k < 64" by (simp add: k)
      have dm: "(k + j) div 4 = i" "(k + j) mod 4 = j" "k + j < 64" if "j < 4" for j
        using that i16 by (simp_all add: k)
      have xb: "bit X (k + j) \<longleftrightarrow>
          i < n \<and> bit (sym_val (u ! i)) j \<noteq> bit (sym_val (v ! i)) j" if "j < 4" for j
        using dm [OF that]
        by (auto simp add: X_def bit_xor_iff nibble_code_bit [OF vu] nibble_code_bit [OF vv] lu lv)
      have b0: "bit X k \<longleftrightarrow> i < n \<and> bit (sym_val (u ! i)) 0 \<noteq> bit (sym_val (v ! i)) 0"
        using xb [of 0] by simp
      have b1: "bit X (k + 1) \<longleftrightarrow> i < n \<and> bit (sym_val (u ! i)) 1 \<noteq> bit (sym_val (v ! i)) 1"
        using xb [of 1] by simp
      have b2: "bit X (k + 2) \<longleftrightarrow> i < n \<and> bit (sym_val (u ! i)) 2 \<noteq> bit (sym_val (v ! i)) 2"
        using xb [of 2] by simp
      have b3: "bit X (k + 3) \<longleftrightarrow> i < n \<and> bit (sym_val (u ! i)) 3 \<noteq> bit (sym_val (v ! i)) 3"
        using xb [of 3] by simp
      have Mk: "bit M k" using True by (simp only: M Mb)
      have "bit ?z k \<longleftrightarrow> i < n \<and> sym_val (u ! i) \<noteq> sym_val (v ! i)"
      proof (cases "i < n")
        case False
        then show ?thesis unfolding zb b0 b1 b2 b3 by simp
      next
        case True
        show ?thesis
          unfolding zb b0 b1 b2 b3 nat_less16_neq_iff [OF sv(1) [OF True] sv(2) [OF True]]
          using Mk True by simp
      qed
      also have "\<dots> \<longleftrightarrow> i < n \<and> u ! i \<noteq> v ! i"
      proof (cases "i < n")
        case True
        from sym_val_inj [OF sv(3) [OF True] sv(4) [OF True]] show ?thesis by auto
      next
        case False
        then show ?thesis by simp
      qed
      also have "\<dots> \<longleftrightarrow> bit (word_of_nat (digits16 ds) :: u64) k"
        using i16 k64
        by (auto simp add: bit_of_nat_iff digits16_bit [OF ds16] lds ds_nth k bit_of_bool_iff bit_Suc_0_iff)
      finally show ?thesis .
    qed
  qed
  have "digits16 ds < 16 ^ length ds" by (rule digits16_bound [OF ds16])
  then have "digits16 ds < 2 ^ 64" by (simp add: lds)
  then have ux: "unat ?z = digits16 ds"
    by (simp only: z unat_of_nat) simp
  have "popcount64 ?z = int (sum_list ds)"
    by (rule popcount64_digits [OF lds ds1 ux])
  also have "sum_list ds = hamming u v"
    by (simp add: ds_def hamming_sum_list)
  finally show ?thesis .
qed


lemma nibble_masks:
  "(0x1111111111111111 :: u64) = word_of_nat (digits16 [1,1,1,1,1,1,1,1,1,1,1,1,1,1,1,1])"
  "(0x11111111111111 :: u64) = word_of_nat (digits16 [1,1,1,1,1,1,1,1,1,1,1,1,1,1])"
  by simp_all

lemma hamming_packed15_codes:
  assumes "valid_word x" and "valid_word y"
  shows "hamming_packed15 (nibble_code x) (nibble_code y) = int (hamming x y)"
  unfolding hamming_packed15_def Let_def
  by (rule swar_hamming_generic [where n = 15 and L = 16, OF _ _ _ _ _ _ nibble_masks(1)])
     (use assms in \<open>simp_all add: valid_word_def\<close>)

lemma hamming_packed14_codes:
  assumes "length x = 14" "length y = 14" "list_all valid_sym x" "list_all valid_sym y"
  shows "hamming_packed14 (nibble_code x) (nibble_code y) = int (hamming x y)"
  unfolding hamming_packed14_def Let_def
  by (rule swar_hamming_generic [where n = 14 and L = 14, OF _ _ _ _ _ _ nibble_masks(2)])
     (use assms in simp_all)

lemma hamming_packed15_words:
  assumes "valid_word x" and "valid_word y"
  shows "hamming_packed15 (pack_keyword x) (pack_keyword y) = int (hamming x y)"
  using assms by (simp add: pack_keyword_eq_nibble_code hamming_packed15_codes)

lemma hamming_packed14_deleted:
  assumes "valid_word x" "valid_word y" "i < 15" "j < 15"
  shows "hamming_packed14 (casefilter_pack_delete (pack_keyword x) i)
                       (casefilter_pack_delete (pack_keyword y) j)
        = int (hamming (delete_at i x) (delete_at j y))"
  unfolding deletion_identity_aux [OF assms(1,3)] deletion_identity_aux [OF assms(2,4)]
  by (rule hamming_packed14_codes) (use assms valid_delete_at in blast)+

text \<open>
  C5.  SWAR Hamming correctness: on the nibble codes of two words of length 15 over
  \<open>{A..J}\<close>, \<open>hamming_packed15\<close> is the number of positions where the words differ;
  on the 56-bit nibble codes of two 14-character words over \<open>{A..J}\<close>,
  \<open>hamming_packed14\<close> is their character-wise Hamming distance; in particular this holds
  for the codes \<open>casefilter_pack_delete\<close> produces from packed valid words.
\<close>

theorem swar_hamming_correct:
  "(valid_word a \<and> valid_word b \<longrightarrow>
      hamming_packed15 (pack_keyword a) (pack_keyword b) = int (hamming a b)) \<and>
   (length u = 14 \<and> length v = 14 \<and> list_all valid_sym u \<and> list_all valid_sym v \<longrightarrow>
      hamming_packed14 (nibble_code u) (nibble_code v) = int (hamming u v)) \<and>
   (valid_word a \<and> valid_word b \<and> p < 15 \<and> q < 15 \<longrightarrow>
      hamming_packed14 (casefilter_pack_delete (pack_keyword a) p)
                       (casefilter_pack_delete (pack_keyword b) q)
        = int (hamming (delete_at p a) (delete_at q b)))"
  using hamming_packed15_words hamming_packed14_codes hamming_packed14_deleted by blast

theorem swar_hamming_correct_witness:
  "valid_word ''ABCDEFGHIJABCDE'' \<and> valid_word ''ABCJEFGHIJABCJE'' \<and>
   hamming_packed15 (pack_keyword ''ABCDEFGHIJABCDE'') (pack_keyword ''ABCJEFGHIJABCJE'')
     = int (hamming ''ABCDEFGHIJABCDE'' ''ABCJEFGHIJABCJE'') \<and>
   length ''BCDEFGHIJABCDE'' = 14 \<and> length ''BCDEFGHJJABCDE'' = 14 \<and>
   list_all valid_sym ''BCDEFGHIJABCDE'' \<and> list_all valid_sym ''BCDEFGHJJABCDE'' \<and>
   hamming_packed14 (nibble_code ''BCDEFGHIJABCDE'') (nibble_code ''BCDEFGHJJABCDE'')
     = int (hamming ''BCDEFGHIJABCDE'' ''BCDEFGHJJABCDE'') \<and>
   (0::nat) < 15 \<and> (7::nat) < 15 \<and>
   hamming_packed14 (casefilter_pack_delete (pack_keyword ''ABCDEFGHIJABCDE'') 0)
                    (casefilter_pack_delete (pack_keyword ''ABCJEFGHIJABCJE'') 7)
     = int (hamming (delete_at 0 ''ABCDEFGHIJABCDE'') (delete_at 7 ''ABCJEFGHIJABCJE''))"
proof -
  have v: "valid_word ''ABCDEFGHIJABCDE''" "valid_word ''ABCJEFGHIJABCJE''"
    "list_all valid_sym ''BCDEFGHIJABCDE''" "list_all valid_sym ''BCDEFGHJJABCDE''"
    by (simp_all add: valid_word_def valid_sym_def)
  have l: "length ''BCDEFGHIJABCDE'' = 14" "length ''BCDEFGHJJABCDE'' = 14"
    "(0::nat) < 15" "(7::nat) < 15"
    by simp_all
  show ?thesis
    using v l swar_hamming_correct [of "''ABCDEFGHIJABCDE''" "''ABCJEFGHIJABCJE''"
        "''BCDEFGHIJABCDE''" "''BCDEFGHJJABCDE''" 0 7]
    by blast
qed

section \<open>The Phase A probe order\<close>

lemma set_drop_swap:
  assumes "i \<le> a" "i \<le> b" "a < length xs" "b < length xs"
  shows "set (drop i (xs[a := xs ! b, b := xs ! a])) = set (drop i xs)"
proof -
  define ys where "ys = drop i xs"
  have n: "xs ! a = ys ! (a - i)" "xs ! b = ys ! (b - i)"
    using assms by (simp_all add: ys_def)
  have l: "a - i < length ys" "b - i < length ys"
    using assms by (simp_all add: ys_def)
  have "drop i (xs[a := xs ! b, b := xs ! a]) = ys[a - i := xs ! b, b - i := xs ! a]"
    using assms by (simp add: drop_update_swap ys_def)
  also have "\<dots> = ys[a - i := ys ! (b - i), b - i := ys ! (a - i)]"
    by (simp only: n)
  also have "set \<dots> = set ys" using l by (rule set_swap)
  finally show ?thesis by (simp only: ys_def)
qed

lemma sort_step_length: "length (sort_step pairs i j ord) = length ord"
  by (simp add: sort_step_def)

lemma sort_inner_inv:
  fixes pairs :: "pair_probe list" and ord :: "nat list" and i m :: nat
  assumes "i < length ord" and "m \<le> length ord"
  defines "ord' \<equiv> fold (\<lambda>j. sort_step pairs i j) [i + 1..<m] ord"
  shows "length ord' = length ord \<and> take i ord' = take i ord
     \<and> set (drop i ord') = set (drop i ord)
     \<and> (\<forall>b. i < b \<and> b < m \<longrightarrow> pp_len (pairs ! (ord' ! i)) \<le> pp_len (pairs ! (ord' ! b)))"
  using assms(2) unfolding ord'_def
proof (induction m)
  case 0
  show ?case by simp
next
  case (Suc m)
  show ?case
  proof (cases "i < m")
    case False
    then have "[i + 1..<Suc m] = []" by simp
    then show ?thesis using False by (auto simp add: less_Suc_eq)
  next
    case True
    define o1 where "o1 = fold (\<lambda>j. sort_step pairs i j) [i + 1..<m] ord"
    from Suc have ih: "length o1 = length ord" "take i o1 = take i ord"
      "set (drop i o1) = set (drop i ord)"
      "\<And>b. i < b \<Longrightarrow> b < m \<Longrightarrow> pp_len (pairs ! (o1 ! i)) \<le> pp_len (pairs ! (o1 ! b))"
      by (simp_all add: o1_def)
    from True have e: "fold (\<lambda>j. sort_step pairs i j) [i + 1..<Suc m] ord = sort_step pairs i m o1"
      by (simp add: o1_def)
    have m: "m < length o1" using Suc.prems ih(1) by simp
    show ?thesis
    proof (cases "pp_len (pairs ! (o1 ! i)) > pp_len (pairs ! (o1 ! m))")
      case False
      then have s: "sort_step pairs i m o1 = o1" by (simp add: sort_step_def)
      show ?thesis unfolding e s using ih False by (auto simp add: less_Suc_eq)
    next
      case sw: True
      then have s: "sort_step pairs i m o1 = o1[i := o1 ! m, m := o1 ! i]"
        by (simp add: sort_step_def)
      have il: "i < length o1" using True m by simp
      have n1: "o1[i := o1 ! m, m := o1 ! i] ! i = o1 ! m" using True il m by simp
      have n2: "o1[i := o1 ! m, m := o1 ! i] ! m = o1 ! i" using True il m by simp
      have n3: "o1[i := o1 ! m, m := o1 ! i] ! b = o1 ! b" if "i < b" "b < m" for b
        using that by simp
      have "set (drop i (o1[i := o1 ! m, m := o1 ! i])) = set (drop i o1)"
        by (rule set_drop_swap) (use True il m in simp_all)
      moreover have "take i (o1[i := o1 ! m, m := o1 ! i]) = take i o1"
        using True by simp
      moreover have "pp_len (pairs ! (o1[i := o1 ! m, m := o1 ! i] ! i))
            \<le> pp_len (pairs ! (o1[i := o1 ! m, m := o1 ! i] ! b))" if "i < b" "b < Suc m" for b
      proof (cases "b = m")
        case True
        then show ?thesis unfolding n1 using n2 sw by simp
      next
        case False
        with that have b: "b < m" by simp
        show ?thesis unfolding n1 n3 [OF that(1) b] using ih(4) [OF that(1) b] sw by simp
      qed
      ultimately show ?thesis unfolding e s using ih(1,2,3) by simp
    qed
  qed
qed

lemma sort_outer_inv:
  fixes pairs :: "pair_probe list" and ord :: "nat list" and m :: nat
  assumes "m \<le> length ord"
  defines "ord' \<equiv> fold (\<lambda>i o1. fold (\<lambda>j. sort_step pairs i j) [i + 1..<length ord] o1) [0..<m] ord"
  shows "length ord' = length ord \<and> set ord' = set ord
     \<and> (\<forall>a b. a < m \<and> a < b \<and> b < length ord
           \<longrightarrow> pp_len (pairs ! (ord' ! a)) \<le> pp_len (pairs ! (ord' ! b)))"
  using assms(1) unfolding ord'_def
proof (induction m)
  case 0
  show ?case by simp
next
  case (Suc m)
  define o1 where
    "o1 = fold (\<lambda>i o1. fold (\<lambda>j. sort_step pairs i j) [i + 1..<length ord] o1) [0..<m] ord"
  define o2 where "o2 = fold (\<lambda>j. sort_step pairs m j) [m + 1..<length ord] o1"
  from Suc have ih: "length o1 = length ord" "set o1 = set ord"
    "\<And>a b. a < m \<Longrightarrow> a < b \<Longrightarrow> b < length ord
        \<Longrightarrow> pp_len (pairs ! (o1 ! a)) \<le> pp_len (pairs ! (o1 ! b))"
    by (simp_all add: o1_def)
  have e: "fold (\<lambda>i o1. fold (\<lambda>j. sort_step pairs i j) [i + 1..<length ord] o1) [0..<Suc m] ord = o2"
    by (simp add: o1_def o2_def)
  have ml: "m < length o1" using Suc.prems ih(1) by simp
  from sort_inner_inv [OF ml, of "length ord" pairs]
  have inner: "length o2 = length o1" "take m o2 = take m o1" "set (drop m o2) = set (drop m o1)"
    "\<And>b. m < b \<Longrightarrow> b < length ord \<Longrightarrow> pp_len (pairs ! (o2 ! m)) \<le> pp_len (pairs ! (o2 ! b))"
    by (simp_all add: o2_def ih(1))
  have "set o2 = set (take m o2) \<union> set (drop m o2)"
    by (metis append_take_drop_id set_append)
  also have "\<dots> = set (take m o1) \<union> set (drop m o1)" by (simp only: inner(2,3))
  also have "\<dots> = set o1" by (metis append_take_drop_id set_append)
  finally have so: "set o2 = set ord" by (simp only: ih(2))
  have low: "o2 ! a = o1 ! a" if "a < m" for a
    using that inner(2) by (metis nth_take)
  have "pp_len (pairs ! (o2 ! a)) \<le> pp_len (pairs ! (o2 ! b))"
    if "a < Suc m" "a < b" "b < length ord" for a b
  proof (cases "a = m")
    case True
    then show ?thesis using inner(4) [of b] that by simp
  next
    case False
    with that have am: "a < m" by simp
    show ?thesis
    proof (cases "b < m")
      case True
      then show ?thesis using ih(3) [OF am that(2,3)] low [OF am] low [OF True] by simp
    next
      case False
      then have "o2 ! b \<in> set (drop m o2)"
        using that(3) inner(1) ih(1) by (auto simp add: in_set_conv_nth intro!: exI [of _ "b - m"])
      then have "o2 ! b \<in> set (drop m o1)" by (simp only: inner(3))
      then obtain c where c: "c < length o1 - m" "o2 ! b = o1 ! (m + c)"
        by (auto simp add: in_set_conv_nth)
      then have "pp_len (pairs ! (o1 ! a)) \<le> pp_len (pairs ! (o1 ! (m + c)))"
        using ih(3) [of a "m + c"] am ih(1) by simp
      then show ?thesis using c(2) low [OF am] by simp
    qed
  qed
  then show ?case unfolding e using so inner(1) ih(1) by simp
qed

lemma upt10s: "[0..<10] = [0,1,2,3,4,5,6,7,8,9]" by (simp add: upt_rec)

lemma upt_to_10:
  "[0 + 1..<10] = [1,2,3,4,5,6,7,8,9]" "[1 + 1..<10] = [2,3,4,5,6,7,8,9]"
  "[2 + 1..<10] = [3,4,5,6,7,8,9]" "[3 + 1..<10] = [4,5,6,7,8,9]" "[4 + 1..<10] = [5,6,7,8,9]"
  "[5 + 1..<10] = [6,7,8,9]" "[6 + 1..<10] = [7,8,9]" "[7 + 1..<10] = [8,9]" "[8 + 1..<10] = [9]"
  "[9 + 1..<10] = []"
  by (simp_all add: upt_rec)

lemma sort_order_unfold:
  "sort_order pairs =
     fold (sort_step pairs 8) [9]
      (fold (sort_step pairs 7) [8,9]
        (fold (sort_step pairs 6) [7,8,9]
          (fold (sort_step pairs 5) [6,7,8,9]
            (fold (sort_step pairs 4) [5,6,7,8,9]
              (fold (sort_step pairs 3) [4,5,6,7,8,9]
                (fold (sort_step pairs 2) [3,4,5,6,7,8,9]
                  (fold (sort_step pairs 1) [2,3,4,5,6,7,8,9]
                    (fold (sort_step pairs 0) [1,2,3,4,5,6,7,8,9] [0,1,2,3,4,5,6,7,8,9]))))))))"
proof -
  have "sort_order pairs = fold (\<lambda>i ord. fold (\<lambda>j ord'. sort_step pairs i j ord') [i + 1..<10] ord)
      [0,1,2,3,4,5,6,7,8,9] [0,1,2,3,4,5,6,7,8,9]"
    by (simp only: sort_order_def upt10s)
  also have "\<dots> = fold (sort_step pairs 9) [9 + 1..<10]
     (fold (sort_step pairs 8) [8 + 1..<10]
      (fold (sort_step pairs 7) [7 + 1..<10]
        (fold (sort_step pairs 6) [6 + 1..<10]
          (fold (sort_step pairs 5) [5 + 1..<10]
            (fold (sort_step pairs 4) [4 + 1..<10]
              (fold (sort_step pairs 3) [3 + 1..<10]
                (fold (sort_step pairs 2) [2 + 1..<10]
                  (fold (sort_step pairs 1) [1 + 1..<10]
                    (fold (sort_step pairs 0) [0 + 1..<10] [0,1,2,3,4,5,6,7,8,9])))))))))"
    by (simp only: fold_simps o_apply id_apply)
  also have "\<dots> = fold (sort_step pairs 8) [9]
      (fold (sort_step pairs 7) [8,9]
        (fold (sort_step pairs 6) [7,8,9]
          (fold (sort_step pairs 5) [6,7,8,9]
            (fold (sort_step pairs 4) [5,6,7,8,9]
              (fold (sort_step pairs 3) [4,5,6,7,8,9]
                (fold (sort_step pairs 2) [3,4,5,6,7,8,9]
                  (fold (sort_step pairs 1) [2,3,4,5,6,7,8,9]
                    (fold (sort_step pairs 0) [1,2,3,4,5,6,7,8,9] [0,1,2,3,4,5,6,7,8,9]))))))))"
    by (simp only: upt_to_10 fold_simps id_apply)
  finally show ?thesis .
qed

lemma query_pairs_length: "length (query_pairs idx q) = 10"
  by (simp add: query_pairs_def)

lemma sort_order_props:
  "length (sort_order pairs) = 10" "set (sort_order pairs) = {0..<10}"
  "distinct (sort_order pairs)"
  "sorted (map (\<lambda>p. pp_len (pairs ! p)) (sort_order pairs))"
proof -
  define P where "P = sort_order pairs"
  have P: "P = fold (\<lambda>i o1. fold (\<lambda>j. sort_step pairs i j) [i + 1..<length [0..<10]] o1)
      [0..<10] [0..<10]"
    by (simp add: P_def sort_order_def)
  from sort_outer_inv [of 10 "[0..<10]" pairs]
  have inv: "length P = 10" "set P = {0..<10}"
    "\<And>a b. a < 10 \<Longrightarrow> a < b \<Longrightarrow> b < 10
        \<Longrightarrow> pp_len (pairs ! (P ! a)) \<le> pp_len (pairs ! (P ! b))"
    unfolding P by simp_all
  have "card (set P) = length P" using inv(1,2) by simp
  then have d: "distinct P" by (rule card_distinct)
  have s: "sorted (map (\<lambda>p. pp_len (pairs ! p)) P)"
    unfolding sorted_iff_nth_mono_less using inv by simp
  show "length (sort_order pairs) = 10" "set (sort_order pairs) = {0..<10}"
    "distinct (sort_order pairs)"
    "sorted (map (\<lambda>p. pp_len (pairs ! p)) (sort_order pairs))"
    using inv(1,2) d s by (simp_all add: P_def)
qed

text \<open>
  C7 (as amended).  The probe order is a permutation of the ten pair indices, sorted
  ascending by posting length.
\<close>

theorem probe_order_sorted:
  "length (probe_order idx query) = 10 \<and> set (probe_order idx query) = {0..<10}
   \<and> distinct (probe_order idx query)
   \<and> sorted (map (\<lambda>p. pp_len (query_pairs idx query ! p)) (probe_order idx query))"
  unfolding probe_order_def using sort_order_props [of "query_pairs idx query"] by blast

section \<open>Insertion\<close>

lemma upt_keyword_len:
  "[0..<KEYWORD_LEN] = [0, 1, 2, 3, 4, 5, 6, 7, 8, 9, 10, 11, 12, 13, 14]"
  by (simp add: KEYWORD_LEN_def upt_rec)

text \<open>
  C10 (as amended).  \<open>casefilter_insert\<close> with a \<open>NULL\<close> word leaves the index unchanged.
  With any other pointer, an empty C string included, it stores the 15 bytes at the pointer
  followed by a terminator as record number \<open>keyword_count\<close>, stores their packed code at
  the same place, increases \<open>keyword_count\<close> by one, and touches no other record, no other
  code and neither table.
\<close>

theorem insert_null_unchanged:
  "casefilter_insert idx None = idx
   \<and> keyword_count (casefilter_insert idx (Some buf)) = keyword_count idx + 1
   \<and> keywords_arr (casefilter_insert idx (Some buf))
       = (keywords_arr idx)(nat (keyword_count idx) := map (\<lambda>i. buf ! i) [0..<KEYWORD_LEN] @ [CHR 0x00])
   \<and> keywords_arr (casefilter_insert idx (Some buf)) (nat (keyword_count idx))
       = [buf ! 0, buf ! 1, buf ! 2, buf ! 3, buf ! 4, buf ! 5, buf ! 6, buf ! 7, buf ! 8, buf ! 9,
          buf ! 10, buf ! 11, buf ! 12, buf ! 13, buf ! 14, CHR 0x00]
   \<and> codes (casefilter_insert idx (Some buf)) = (codes idx)(nat (keyword_count idx) := pack_keyword buf)
   \<and> codes (casefilter_insert idx (Some buf)) (nat (keyword_count idx)) = pack_keyword buf
   \<and> hidx (casefilter_insert idx (Some buf)) = hidx idx
   \<and> del7 (casefilter_insert idx (Some buf)) = del7 idx"
  by (simp add: casefilter_insert_def ensure_keyword_cap_def Let_def upt_keyword_len)

text \<open>The claim as stated fails for the empty string: a buffer that starts with the
  terminator is stored like any other.\<close>

theorem insert_empty_counterexample:
  "keyword_count (casefilter_insert (casefilter_create 1024)
      (Some [CHR 0x00, CHR 0x00, CHR 0x00, CHR 0x00, CHR 0x00, CHR 0x00, CHR 0x00, CHR 0x00,
             CHR 0x00, CHR 0x00, CHR 0x00, CHR 0x00, CHR 0x00, CHR 0x00, CHR 0x00, CHR 0x00]))
     \<noteq> keyword_count (casefilter_create 1024)"
  by (simp add: casefilter_insert_def ensure_keyword_cap_def casefilter_create_def Let_def)

section \<open>The CSR tables\<close>

subsection \<open>Counting and prefix sums\<close>

lemma slot_count_Nil [simp]: "slot_count [] s = 0"
  by (simp add: slot_count_def)

lemma slot_count_append [simp]: "slot_count (ps @ qs) s = slot_count ps s + slot_count qs s"
  by (simp add: slot_count_def)

lemma slot_count_Cons: "slot_count (x # ps) s = (if fst x = s then 1 else 0) + slot_count ps s"
  by (simp add: slot_count_def)

lemma slot_count_le_length: "slot_count ps s \<le> length ps"
  by (simp add: slot_count_def)

lemma slot_payload_length [simp]: "length (slot_payload ps s) = slot_count ps s"
  by (simp add: slot_payload_def slot_count_def)

lemma slot_payload_append [simp]:
  "slot_payload (ps @ qs) s = slot_payload ps s @ slot_payload qs s"
  by (simp add: slot_payload_def)

lemma slot_start_Suc: "slot_start ps (Suc s) = slot_start ps s + slot_count ps s"
  by (simp add: slot_start_def)

lemma slot_start_mono: "s \<le> t \<Longrightarrow> slot_start ps s \<le> slot_start ps t"
  unfolding slot_start_def by (rule sum_mono2) auto

lemma slot_start_0 [simp]: "slot_start ps 0 = 0"
  by (simp add: slot_start_def)

lemma slot_start_total:
  "\<forall>x \<in> set ps. fst x < S \<Longrightarrow> slot_start ps S = length ps"
proof (induction ps)
  case Nil
  show ?case by (simp add: slot_start_def)
next
  case (Cons x ps)
  then have x: "fst x < S" and ih: "slot_start ps S = length ps" by simp_all
  have "slot_start (x # ps) S = sum (\<lambda>j. if fst x = j then 1 else 0) {..<S} + slot_start ps S"
    by (simp add: slot_start_def slot_count_Cons sum.distrib)
  also have "sum (\<lambda>j. if fst x = j then 1 else 0 :: nat) {..<S} = 1"
    using x by simp
  finally show ?case using ih by simp
qed

lemma slot_start_le_length: "slot_start ps s \<le> length ps"
proof (induction ps)
  case Nil
  show ?case by (simp add: slot_start_def)
next
  case (Cons x ps)
  have "slot_start (x # ps) s = sum (\<lambda>j. if fst x = j then 1 else 0) {..<s} + slot_start ps s"
    by (simp add: slot_start_def slot_count_Cons sum.distrib)
  moreover have "sum (\<lambda>j. if fst x = j then 1 else 0 :: nat) {..<s} \<le> 1"
    by simp
  ultimately show ?case using Cons by simp
qed

lemma csr_count_eq:
  "csr_count ps c s = c s + word_of_nat (slot_count ps s)"
proof (induction ps arbitrary: c)
  case Nil
  show ?case by (simp add: csr_count_def)
next
  case (Cons x ps)
  obtain t v where x: "x = (t, v)" by (cases x)
  have "csr_count (x # ps) c s = csr_count ps (c(t := c t + 1)) s"
    by (simp add: csr_count_def x)
  then show ?case by (simp add: Cons.IH slot_count_Cons x)
qed

lemma prefix_offsets_eq:
  "prefix_offsets S c i = (if i \<le> S then sum (\<lambda>j. sint (c j)) {..<i} else 0)"
proof (induction S arbitrary: i)
  case 0
  show ?case by (simp add: prefix_offsets_def)
next
  case (Suc S)
  have "prefix_offsets (Suc S) c
      = (prefix_offsets S c)(S + 1 := prefix_offsets S c S + sint (c S))"
    by (simp add: prefix_offsets_def)
  then show ?case by (auto simp add: Suc.IH le_Suc_eq)
qed

lemma sint_of_nat_small:
  assumes "n < 2 ^ 31"
  shows "sint (word_of_nat n :: u32) = int n"
proof -
  have "unat (word_of_nat n :: u32) = n"
    using assms by (simp add: unat_of_nat)
  then have u: "uint (word_of_nat n :: u32) = int n" by (simp only: uint_nat)
  have "int n < int (2 ^ 31)" using assms by (simp only: of_nat_less_iff)
  then have b: "int n < 2 ^ 31" by simp
  have "sint (word_of_nat n :: u32) = signed_take_bit 31 (int n)"
    by (simp only: sint_uint u) simp
  also have "\<dots> = int n"
  proof (rule signed_take_bit_int_eq_self)
    have "- (2 ^ 31) \<le> (0::int)" by simp
    moreover have "0 \<le> int n" by simp
    ultimately show "- (2 ^ 31) \<le> int n" by (rule order_trans)
    show "int n < 2 ^ 31" by (fact b)
  qed
  finally show ?thesis .
qed

lemma prefix_offsets_csr:
  assumes "length ps < 2 ^ 31" and "i \<le> S"
  shows "prefix_offsets S (csr_count ps (\<lambda>_. 0)) i = int (slot_start ps i)"
proof -
  have "sint (csr_count ps (\<lambda>_. 0) j) = int (slot_count ps j)" for j
  proof -
    have "slot_count ps j < 2 ^ 31" using slot_count_le_length [of ps j] assms(1) by simp
    then show ?thesis by (simp add: csr_count_eq sint_of_nat_small)
  qed
  then show ?thesis using assms(2) by (simp add: prefix_offsets_eq slot_start_def)
qed

subsection \<open>The scatter pass\<close>

lemma csr_fill_append: "csr_fill (ps @ qs) x = csr_fill qs (csr_fill ps x)"
  by (simp add: csr_fill_def)

lemma csr_fill_snoc:
  "csr_fill (ps @ [(t, v)]) x =
     (case csr_fill ps x of (cursor, arr) \<Rightarrow> (cursor(t := cursor t + 1), arr[nat (cursor t) := v]))"
  by (simp add: csr_fill_def)

lemma csr_count_append: "csr_count (ps @ qs) c = csr_count qs (csr_count ps c)"
  by (simp add: csr_count_def)

lemma slot_range_in_bounds:
  assumes "j < slot_count P s"
  shows "slot_start P s + j < length P"
proof -
  have "slot_start P s + j < slot_start P (Suc s)" using assms by (simp add: slot_start_Suc)
  also have "\<dots> \<le> length P" by (rule slot_start_le_length)
  finally show ?thesis .
qed

lemma slot_ranges_disjoint:
  assumes "j < slot_count P s" and "i < slot_count P t" and "s \<noteq> t"
  shows "slot_start P s + j \<noteq> slot_start P t + i"
proof (cases "s < t")
  case True
  have "slot_start P s + j < slot_start P (Suc s)" using assms(1) by (simp add: slot_start_Suc)
  also have "\<dots> \<le> slot_start P t" using True by (intro slot_start_mono) simp
  finally show ?thesis by simp
next
  case False
  with assms(3) have ts: "t < s" by simp
  have "slot_start P t + i < slot_start P (Suc t)" using assms(2) by (simp add: slot_start_Suc)
  also have "\<dots> \<le> slot_start P s" using ts by (intro slot_start_mono) simp
  finally show ?thesis by simp
qed

lemma csr_fill_inv:
  assumes "P = dn @ rest" and "length arr0 = length P"
  shows "(\<forall>s. fst (csr_fill dn (\<lambda>s. int (slot_start P s), arr0)) s
             = int (slot_start P s + slot_count dn s))
     \<and> length (snd (csr_fill dn (\<lambda>s. int (slot_start P s), arr0))) = length P
     \<and> (\<forall>s j. j < slot_count dn s \<longrightarrow>
           snd (csr_fill dn (\<lambda>s. int (slot_start P s), arr0)) ! (slot_start P s + j)
             = slot_payload dn s ! j)"
  using assms(1)
proof (induction dn arbitrary: rest rule: rev_induct)
  case Nil
  show ?case using assms(2) by (simp add: csr_fill_def)
next
  case (snoc x d)
  obtain t v where x: "x = (t, v)" by (cases x)
  obtain cur arr where ca: "csr_fill d (\<lambda>s. int (slot_start P s), arr0) = (cur, arr)"
    by (cases "csr_fill d (\<lambda>s. int (slot_start P s), arr0)")
  from snoc.prems have P: "P = d @ (x # rest)" by simp
  from snoc.IH [OF P] have ih: "\<And>s. cur s = int (slot_start P s + slot_count d s)"
    "length arr = length P"
    "\<And>s j. j < slot_count d s \<Longrightarrow> arr ! (slot_start P s + j) = slot_payload d s ! j"
    by (simp_all add: ca)
  have cP: "slot_count P s = slot_count d s + (if t = s then 1 else 0) + slot_count rest s" for s
    by (simp add: P x slot_count_Cons)
  define pos where "pos = slot_start P t + slot_count d t"
  have pos: "nat (cur t) = pos" by (simp add: ih(1) pos_def)
  have "slot_count d t < slot_count P t" by (simp add: cP)
  then have posb: "pos < length arr" unfolding pos_def ih(2) by (rule slot_range_in_bounds)
  have res: "csr_fill (d @ [x]) (\<lambda>s. int (slot_start P s), arr0)
      = (cur(t := cur t + 1), arr[pos := v])"
    by (simp add: x csr_fill_snoc ca pos)
  have 1: "(cur(t := cur t + 1)) s = int (slot_start P s + slot_count (d @ [x]) s)" for s
    by (simp add: ih(1) x slot_count_Cons)
  have 2: "arr[pos := v] ! (slot_start P s + j) = slot_payload (d @ [x]) s ! j"
    if j: "j < slot_count (d @ [x]) s" for s j
  proof (cases "s = t \<and> j = slot_count d t")
    case True
    then show ?thesis using posb by (simp add: pos_def x slot_payload_def slot_count_def nth_append)
  next
    case False
    have jd: "j < slot_count d s"
      using j False by (auto simp add: x slot_count_Cons split: if_splits)
    have ne: "slot_start P s + j \<noteq> pos"
    proof (cases "s = t")
      case True
      with False jd show ?thesis by (simp add: pos_def)
    next
      case ne: False
      have "j < slot_count P s" using jd by (simp add: cP)
      moreover have "slot_count d t < slot_count P t" by (simp add: cP)
      ultimately show ?thesis unfolding pos_def using ne by (rule slot_ranges_disjoint)
    qed
    have "arr[pos := v] ! (slot_start P s + j) = arr ! (slot_start P s + j)"
      using ne by simp
    also have "\<dots> = slot_payload d s ! j" by (rule ih(3) [OF jd])
    also have "\<dots> = slot_payload (d @ [x]) s ! j"
      using jd by (simp add: nth_append)
    finally show ?thesis .
  qed
  show ?case unfolding res using 1 2 ih(2) by simp
qed

lemma csr_fill_correct:
  assumes "length arr0 = length P"
  shows "length (snd (csr_fill P (\<lambda>s. int (slot_start P s), arr0))) = length P"
    and "map (\<lambda>i. snd (csr_fill P (\<lambda>s. int (slot_start P s), arr0)) ! nat (int (slot_start P s) + int i))
            [0..<slot_count P s] = slot_payload P s"
proof -
  from csr_fill_inv [of P P "[]" arr0] assms
  have inv: "length (snd (csr_fill P (\<lambda>s. int (slot_start P s), arr0))) = length P"
    "\<And>s j. j < slot_count P s \<Longrightarrow>
       snd (csr_fill P (\<lambda>s. int (slot_start P s), arr0)) ! (slot_start P s + j) = slot_payload P s ! j"
    by simp_all
  show "length (snd (csr_fill P (\<lambda>s. int (slot_start P s), arr0))) = length P" by (fact inv(1))
  have "nat (int (slot_start P s) + int i) = slot_start P s + i" for i by simp
  then show "map (\<lambda>i. snd (csr_fill P (\<lambda>s. int (slot_start P s), arr0)) ! nat (int (slot_start P s) + int i))
            [0..<slot_count P s] = slot_payload P s"
    by (intro nth_equalityI) (simp_all add: inv(2))
qed

subsection \<open>The build loops run through the posting sequences\<close>

lemma hpostings_Suc:
  "hpostings kw (Suc n) = hpostings kw n
      @ map (\<lambda>p. (hslot (kw n) p, int n)) [0..<CASEFILTER_HPAIR_COUNT]"
  by (simp add: hpostings_def)

lemma dpostings_Suc:
  "dpostings kw (Suc n) = dpostings kw n
      @ concat (map (\<lambda>pos. [(lslot_of (kw n) pos, packed_idpos n pos),
                              (rslot_of (kw n) pos, packed_idpos n pos)]) [0..<KEYWORD_LEN])"
  by (simp add: dpostings_def)

lemma hcount_word_csr:
  "hcount_word w c = csr_count (map (\<lambda>p. (hslot w p, v)) [0..<CASEFILTER_HPAIR_COUNT]) c"
  by (simp add: hcount_word_def csr_count_def fold_map comp_def)

lemma hcount_pass_csr: "hcount_pass kw n = csr_count (hpostings kw n) (\<lambda>_. 0)"
proof (induction n)
  case 0
  show ?case by (simp add: hcount_pass_def hpostings_def csr_count_def)
next
  case (Suc n)
  have "hcount_pass kw (Suc n) = hcount_word (kw n) (hcount_pass kw n)"
    by (simp add: hcount_pass_def)
  then show ?case
    by (simp add: Suc hpostings_Suc csr_count_append hcount_word_csr [where v = "int n"])
qed

lemma hfill_word_csr:
  "hfill_word wid w x = csr_fill (map (\<lambda>p. (hslot w p, int wid)) [0..<CASEFILTER_HPAIR_COUNT]) x"
  by (simp add: hfill_word_def csr_fill_def fold_map comp_def)

lemma hfill_csr:
  "fold (\<lambda>wid. hfill_word wid (kw wid)) [0..<n] x = csr_fill (hpostings kw n) x"
proof (induction n)
  case 0
  show ?case by (simp add: hpostings_def csr_fill_def)
next
  case (Suc n)
  show ?case by (simp add: hpostings_Suc csr_fill_append hfill_word_csr flip: Suc)
qed

lemma dcount_word_csr:
  "dcount_word w c = csr_count (concat (map (\<lambda>pos. [(lslot_of w pos, f pos), (rslot_of w pos, f pos)])
      [0..<KEYWORD_LEN])) c"
proof -
  have "fold (\<lambda>pos c. let c1 = c(lslot_of w pos := c (lslot_of w pos) + 1)
                    in c1(rslot_of w pos := c1 (rslot_of w pos) + 1)) xs c
      = csr_count (concat (map (\<lambda>pos. [(lslot_of w pos, f pos), (rslot_of w pos, f pos)]) xs)) c"
    for xs
    by (induction xs arbitrary: c) (simp_all add: csr_count_def Let_def)
  then show ?thesis by (simp add: dcount_word_def)
qed

lemma dcount_pass_csr: "dcount_pass kw n = csr_count (dpostings kw n) (\<lambda>_. 0)"
proof (induction n)
  case 0
  show ?case by (simp add: dcount_pass_def dpostings_def csr_count_def)
next
  case (Suc n)
  have "dcount_pass kw (Suc n) = dcount_word (kw n) (dcount_pass kw n)"
    by (simp add: dcount_pass_def)
  then show ?case
    by (simp add: Suc dpostings_Suc csr_count_append dcount_word_csr [where f = "packed_idpos n"])
qed

lemma dfill_word_csr:
  "dfill_word wid w x = csr_fill (concat (map (\<lambda>pos. [(lslot_of w pos, packed_idpos wid pos),
      (rslot_of w pos, packed_idpos wid pos)]) [0..<KEYWORD_LEN])) x"
proof -
  have "fold (\<lambda>pos (cursor, idpos).
             (let v = packed_idpos wid pos;
                  l = lslot_of w pos;
                  r = rslot_of w pos;
                  idpos1 = idpos[nat (cursor l) := v];
                  cursor1 = cursor(l := cursor l + 1);
                  idpos2 = idpos1[nat (cursor1 r) := v];
                  cursor2 = cursor1(r := cursor1 r + 1)
              in (cursor2, idpos2))) xs x
      = csr_fill (concat (map (\<lambda>pos. [(lslot_of w pos, packed_idpos wid pos),
           (rslot_of w pos, packed_idpos wid pos)]) xs)) x" for xs
    by (induction xs arbitrary: x) (simp_all add: csr_fill_def Let_def split: prod.splits)
  then show ?thesis by (simp add: dfill_word_def)
qed

lemma dfill_csr:
  "fold (\<lambda>wid. dfill_word wid (kw wid)) [0..<n] x = csr_fill (dpostings kw n) x"
proof (induction n)
  case 0
  show ?case by (simp add: dpostings_def csr_fill_def)
next
  case (Suc n)
  show ?case by (simp add: dpostings_Suc csr_fill_append dfill_word_csr flip: Suc)
qed

lemma hpostings_length: "length (hpostings kw n) = 10 * n"
  by (induction n) (simp_all add: hpostings_Suc CASEFILTER_HPAIR_COUNT_def, simp add: hpostings_def)

lemma dpostings_length: "length (dpostings kw n) = 30 * n"
proof (induction n)
  case 0
  show ?case by (simp add: dpostings_def)
next
  case (Suc n)
  have "length (concat (map (\<lambda>pos. [(lslot_of (kw n) pos, packed_idpos n pos),
                              (rslot_of (kw n) pos, packed_idpos n pos)]) xs)) = 2 * length xs"
    for xs by (induction xs) simp_all
  then show ?case by (simp add: Suc dpostings_Suc KEYWORD_LEN_def)
qed

subsection \<open>Slots of valid words\<close>

lemma upt3: "[0..<3] = [0,1,2]" by (simp add: upt_rec)
lemma upt5: "[0..<5] = [0,1,2,3,4]" by (simp add: upt_rec)
lemma upt6: "[0..<6] = [0,1,2,3,4,5]" by (simp add: upt_rec)
lemma upt7: "[0..<7] = [0,1,2,3,4,5,6]" by (simp add: upt_rec)
lemma upt10: "[0..<10] = [0,1,2,3,4,5,6,7,8,9]" by (simp add: upt_rec)
lemma upt15: "[0..<15] = [0,1,2,3,4,5,6,7,8,9,10,11,12,13,14]" by (simp add: upt_rec)

lemma nib32_valid: "valid_sym c \<Longrightarrow> nib32 c = word_of_nat (sym_val c)"
  by (auto simp add: valid_sym_def nib32_def char_val_def sym_val_def)

lemma pack_key6_valid:
  assumes "length key = 6" and "list_all valid_sym key"
  shows "pack_key6 key = word_of_nat (sym_val (key ! 0) + 10 * sym_val (key ! 1)
      + 100 * sym_val (key ! 2) + 1000 * sym_val (key ! 3) + 10000 * sym_val (key ! 4)
      + 100000 * sym_val (key ! 5))"
    and "sym_val (key ! 0) + 10 * sym_val (key ! 1)
      + 100 * sym_val (key ! 2) + 1000 * sym_val (key ! 3) + 10000 * sym_val (key ! 4)
      + 100000 * sym_val (key ! 5) < 1000000"
proof -
  have v: "valid_sym (key ! i)" if "i < 6" for i
    using assms that by (simp add: list_all_length)
  show "pack_key6 key = word_of_nat (sym_val (key ! 0) + 10 * sym_val (key ! 1)
      + 100 * sym_val (key ! 2) + 1000 * sym_val (key ! 3) + 10000 * sym_val (key ! 4)
      + 100000 * sym_val (key ! 5))"
    by (simp add: pack_key6_def upt6 nib32_valid v)
  have "sym_val (key ! i) \<le> 9" if "i < 6" for i
    using sym_val_less [OF v [OF that]] by simp
  from this [of 0] this [of 1] this [of 2] this [of 3] this [of 4] this [of 5]
  show "sym_val (key ! 0) + 10 * sym_val (key ! 1)
      + 100 * sym_val (key ! 2) + 1000 * sym_val (key ! 3) + 10000 * sym_val (key ! 4)
      + 100000 * sym_val (key ! 5) < 1000000"
    by simp
qed

lemma pack_key7_valid:
  assumes "length key = 7" and "list_all valid_sym key"
  shows "pack_key7 key = word_of_nat (sym_val (key ! 0) + 10 * sym_val (key ! 1)
      + 100 * sym_val (key ! 2) + 1000 * sym_val (key ! 3) + 10000 * sym_val (key ! 4)
      + 100000 * sym_val (key ! 5) + 1000000 * sym_val (key ! 6))"
    and "sym_val (key ! 0) + 10 * sym_val (key ! 1)
      + 100 * sym_val (key ! 2) + 1000 * sym_val (key ! 3) + 10000 * sym_val (key ! 4)
      + 100000 * sym_val (key ! 5) + 1000000 * sym_val (key ! 6) < 10000000"
proof -
  have v: "valid_sym (key ! i)" if "i < 7" for i
    using assms that by (simp add: list_all_length)
  show "pack_key7 key = word_of_nat (sym_val (key ! 0) + 10 * sym_val (key ! 1)
      + 100 * sym_val (key ! 2) + 1000 * sym_val (key ! 3) + 10000 * sym_val (key ! 4)
      + 100000 * sym_val (key ! 5) + 1000000 * sym_val (key ! 6))"
    by (simp add: pack_key7_def upt7 nib32_valid v)
  have "sym_val (key ! i) \<le> 9" if "i < 7" for i
    using sym_val_less [OF v [OF that]] by simp
  from this [of 0] this [of 1] this [of 2] this [of 3] this [of 4] this [of 5] this [of 6]
  show "sym_val (key ! 0) + 10 * sym_val (key ! 1)
      + 100 * sym_val (key ! 2) + 1000 * sym_val (key ! 3) + 10000 * sym_val (key ! 4)
      + 100000 * sym_val (key ! 5) + 1000000 * sym_val (key ! 6) < 10000000"
    by simp
qed

text \<open>A stored record: the 15 bytes read from the buffer and the terminator.\<close>

lemma pair_key_valid:
  assumes "\<forall>i<15. valid_sym (w ! i)" and "p < 10"
  shows "length (pair_key (blocks_of w) p) = 6" and "list_all valid_sym (pair_key (blocks_of w) p)"
proof -
  from assms(2) have "p = 0 \<or> p = 1 \<or> p = 2 \<or> p = 3 \<or> p = 4 \<or> p = 5 \<or> p = 6 \<or> p = 7
      \<or> p = 8 \<or> p = 9" by presburger
  then show "length (pair_key (blocks_of w) p) = 6"
    by (auto simp add: pair_key_def blocks_of_def pair_i_def pair_j_def upt3 upt5)
  from \<open>p = 0 \<or> p = 1 \<or> p = 2 \<or> p = 3 \<or> p = 4 \<or> p = 5 \<or> p = 6 \<or> p = 7 \<or> p = 8 \<or> p = 9\<close>
  show "list_all valid_sym (pair_key (blocks_of w) p)"
    using assms(1) by (auto simp add: pair_key_def blocks_of_def pair_i_def pair_j_def upt3 upt5)
qed

lemma hslot_bound:
  assumes "\<forall>i<15. valid_sym (w ! i)" and "p < 10"
  shows "hslot w p < 10000000"
proof -
  define m where "m = sym_val (pair_key (blocks_of w) p ! 0) + 10 * sym_val (pair_key (blocks_of w) p ! 1)
      + 100 * sym_val (pair_key (blocks_of w) p ! 2) + 1000 * sym_val (pair_key (blocks_of w) p ! 3)
      + 10000 * sym_val (pair_key (blocks_of w) p ! 4) + 100000 * sym_val (pair_key (blocks_of w) p ! 5)"
  note k = pair_key_valid [OF assms]
  have pk: "pack_key6 (pair_key (blocks_of w) p) = word_of_nat m" and m: "m < 1000000"
    unfolding m_def by (rule pack_key6_valid [OF k])+
  have "hslot w p = nat (sint (word_of_nat (m + p * 1000000) :: u32))"
    by (simp add: hslot_def pk CASEFILTER_H_KEY_SPACE_def)
  also have "\<dots> = m + p * 1000000"
    using m assms(2) by (subst sint_of_nat_small) simp_all
  finally show ?thesis using m assms(2) by simp
qed

lemma filter_neq_upt:
  assumes "pos < n"
  shows "filter (\<lambda>i. i \<noteq> pos) [0..<n] = [0..<pos] @ [Suc pos..<n]"
proof -
  have 1: "[0..<n] = [0..<pos] @ pos # [Suc pos..<n]"
    using upt_add_eq_append [of 0 pos "n - pos"] upt_conv_Cons [of pos n] assms by simp
  have 2: "filter (\<lambda>i. i \<noteq> pos) [0..<pos] = [0..<pos]"
    by (simp add: filter_id_conv)
  have 3: "filter (\<lambda>i. i \<noteq> pos) [Suc pos..<n] = [Suc pos..<n]"
    by (simp add: filter_id_conv)
  show ?thesis by (simp only: 1 filter_append filter.simps 2 3) simp
qed

lemma map_nth_upt:
  "b \<le> length w \<Longrightarrow> map (\<lambda>i. w ! i) [a..<b] = take (b - a) (drop a w)"
  by (intro nth_equalityI) (auto simp add: add.commute)

lemma del_string_eq:
  assumes "pos < 15" and "length w = 15"
  shows "del_string w pos = delete_at pos w"
proof -
  have "map (\<lambda>i. w ! i) [0..<pos] = take pos w"
    using assms by (simp add: map_nth_upt)
  moreover have "map (\<lambda>i. w ! i) [Suc pos..<15] = drop (Suc pos) w"
    using assms by (simp add: map_nth_upt)
  ultimately show ?thesis
    using assms(1) by (simp add: del_string_def KEYWORD_LEN_def filter_neq_upt delete_at_def)
qed

lemma del_string_valid:
  assumes "\<forall>i<15. valid_sym (w ! i)" and "pos < 15"
  shows "length (del_string w pos) = 14" and "list_all valid_sym (del_string w pos)"
proof -
  show "length (del_string w pos) = 14"
    using assms(2) by (simp add: del_string_def KEYWORD_LEN_def filter_neq_upt)
  show "list_all valid_sym (del_string w pos)"
    using assms(1) by (auto simp add: del_string_def KEYWORD_LEN_def list_all_iff)
qed

lemma dslot_bound:
  assumes "\<forall>i<15. valid_sym (w ! i)" and "pos < 15"
  shows "lslot_of w pos < 10000000" and "rslot_of w pos < 10000000"
proof -
  note d = del_string_valid [OF assms]
  have key_bound: "nat (sint (pack_key7 key)) < 10000000"
    if "length key = 7" "list_all valid_sym key" for key
  proof -
    define m where "m = sym_val (key ! 0) + 10 * sym_val (key ! 1)
      + 100 * sym_val (key ! 2) + 1000 * sym_val (key ! 3) + 10000 * sym_val (key ! 4)
      + 100000 * sym_val (key ! 5) + 1000000 * sym_val (key ! 6)"
    have pk: "pack_key7 key = word_of_nat m" and m: "m < 10000000"
      unfolding m_def by (rule pack_key7_valid [OF that])+
    have "sint (word_of_nat m :: u32) = int m"
      using m by (intro sint_of_nat_small) simp
    then show ?thesis using m by (simp add: pk)
  qed
  show "lslot_of w pos < 10000000"
    unfolding lslot_of_def
    by (rule key_bound) (use d in \<open>auto simp add: list_all_iff dest: in_set_takeD\<close>)
  show "rslot_of w pos < 10000000"
    unfolding rslot_of_def
    by (rule key_bound) (use d in \<open>auto simp add: list_all_iff dest: in_set_takeD in_set_dropD\<close>)
qed

subsection \<open>The tables of a built index\<close>

lemma csr_fill_cong:
  "\<forall>x \<in> set ps. cur (fst x) = cur' (fst x) \<Longrightarrow>
   snd (csr_fill ps (cur, arr)) = snd (csr_fill ps (cur', arr))"
proof (induction ps arbitrary: cur cur' arr)
  case Nil
  show ?case by (simp add: csr_fill_def)
next
  case (Cons x ps)
  obtain t v where x: "x = (t, v)" by (cases x)
  have e: "cur t = cur' t" using Cons.prems by (simp add: x)
  have s: "csr_fill (x # ps) (c, arr) = csr_fill ps (c(t := c t + 1), arr[nat (c t) := v])" for c
    by (simp add: csr_fill_def x)
  have "\<forall>y \<in> set ps. (cur(t := cur t + 1)) (fst y) = (cur'(t := cur' t + 1)) (fst y)"
    using Cons.prems e by simp
  then have "snd (csr_fill ps (cur(t := cur t + 1), arr[nat (cur t) := v]))
      = snd (csr_fill ps (cur'(t := cur' t + 1), arr[nat (cur t) := v]))"
    by (rule Cons.IH)
  then show ?case by (simp only: s e)
qed

lemma csr_table:
  fixes P :: "(nat \<times> 'a) list" and z :: 'a
  assumes slots: "\<forall>x \<in> set P. fst x < S" and len: "length P < 2 ^ 31"
  defines "counts \<equiv> csr_count P (\<lambda>_. 0)"
  defines "offsets \<equiv> prefix_offsets S counts"
  defines "arr \<equiv> snd (csr_fill P (offsets, replicate (nat (offsets S)) z))"
  shows "\<And>s. s \<le> S \<Longrightarrow> offsets s = int (slot_start P s)"
    and "\<And>s. sint (counts s) = int (slot_count P s)"
    and "\<And>s. uint (counts s) = int (slot_count P s)"
    and "length arr = length P"
    and "\<And>s. s < S \<Longrightarrow>
          map (\<lambda>i. arr ! nat (offsets s + int i)) [0..<nat (offsets (s + 1) - offsets s)]
            = slot_payload P s"
proof -
  show off: "offsets s = int (slot_start P s)" if "s \<le> S" for s
    unfolding offsets_def counts_def using len that by (rule prefix_offsets_csr)
  have c: "counts s = word_of_nat (slot_count P s)" for s
    by (simp add: counts_def csr_count_eq)
  have cb: "slot_count P s < 2 ^ 31" for s
    using slot_count_le_length [of P s] len by simp
  show "sint (counts s) = int (slot_count P s)" for s
    unfolding c using cb by (rule sint_of_nat_small)
  have "unat (word_of_nat (slot_count P s) :: u32) = slot_count P s" for s
    using cb [of s] by (simp add: unat_of_nat)
  then show "uint (counts s) = int (slot_count P s)" for s
    by (simp only: c uint_nat)
  have tot: "nat (offsets S) = length P"
    by (simp add: off slot_start_total [OF slots])
  have "arr = snd (csr_fill P (\<lambda>s. int (slot_start P s), replicate (length P) z))"
    unfolding arr_def tot
    by (rule csr_fill_cong) (use slots off in auto)
  then have arr: "arr = snd (csr_fill P (\<lambda>s. int (slot_start P s), replicate (length P) z))" .
  show "length arr = length P"
    unfolding arr by (rule csr_fill_correct) simp
  show "map (\<lambda>i. arr ! nat (offsets s + int i)) [0..<nat (offsets (s + 1) - offsets s)]
            = slot_payload P s" if "s < S" for s
  proof -
    have 1: "offsets s = int (slot_start P s)" using that by (simp add: off)
    have 2: "offsets (s + 1) = int (slot_start P s) + int (slot_count P s)"
      using that by (simp add: off slot_start_Suc)
    show ?thesis
      unfolding arr 1 2 using csr_fill_correct(2) [of "replicate (length P) z" P s] by simp
  qed
qed

lemma insert_all_snoc:
  "insert_all idx (ws @ [w]) = casefilter_insert (insert_all idx ws) (Some w)"
  by (simp add: insert_all_def)

lemma insert_all_facts:
  assumes "keyword_count idx0 = 0"
  shows "keyword_count (insert_all idx0 ws) = int (length ws)
     \<and> (\<forall>i<length ws. keywords_arr (insert_all idx0 ws) i
            = map (\<lambda>k. (ws ! i) ! k) [0..<KEYWORD_LEN] @ [CHR 0x00]
          \<and> codes (insert_all idx0 ws) i = pack_keyword (ws ! i))"
proof (induction ws rule: rev_induct)
  case Nil
  show ?case using assms by (simp add: insert_all_def)
next
  case (snoc w ws)
  then show ?case
    by (auto simp add: insert_all_snoc casefilter_insert_def ensure_keyword_cap_def Let_def
        nth_append less_Suc_eq)
qed

lemma stored_record_nth:
  "k < 15 \<Longrightarrow> (map (\<lambda>k. w ! k) [0..<15] @ [c]) ! k = w ! k"
  by (simp add: nth_append)

lemma hslot_stored_record:
  "hslot (map (\<lambda>k. w ! k) [0..<KEYWORD_LEN] @ [c]) p = hslot w p"
proof -
  have "blocks_of (map (\<lambda>k. w ! k) [0..<KEYWORD_LEN] @ [c]) = blocks_of w"
    by (simp add: blocks_of_def upt5 upt3 stored_record_nth KEYWORD_LEN_def del: upt_Suc)
  then show ?thesis by (simp add: hslot_def)
qed

lemma del_string_stored_record:
  "del_string (map (\<lambda>k. w ! k) [0..<KEYWORD_LEN] @ [c]) pos = del_string w pos"
  by (simp add: del_string_def stored_record_nth KEYWORD_LEN_def del: upt_Suc)

lemma dslot_stored_record:
  "lslot_of (map (\<lambda>k. w ! k) [0..<KEYWORD_LEN] @ [c]) pos = lslot_of w pos"
  "rslot_of (map (\<lambda>k. w ! k) [0..<KEYWORD_LEN] @ [c]) pos = rslot_of w pos"
  by (simp_all add: lslot_of_def rslot_of_def del_string_stored_record)

lemma stored_record_valid:
  "valid_word w \<Longrightarrow> take KEYWORD_LEN (map (\<lambda>k. w ! k) [0..<KEYWORD_LEN] @ [c]) = w"
  by (simp add: valid_word_def KEYWORD_LEN_def map_nth_upt)

lemma hpostings_cong:
  "(\<And>i p. i < n \<Longrightarrow> hslot (kw i) p = hslot (kw' i) p) \<Longrightarrow> hpostings kw n = hpostings kw' n"
  unfolding hpostings_def by (intro arg_cong [where f = concat] map_cong) simp_all

lemma dpostings_cong:
  "(\<And>i p. i < n \<Longrightarrow> lslot_of (kw i) p = lslot_of (kw' i) p \<and> rslot_of (kw i) p = rslot_of (kw' i) p)
   \<Longrightarrow> dpostings kw n = dpostings kw' n"
  unfolding dpostings_def by (intro arg_cong [where f = concat] map_cong) simp_all

lemma hpostings_slots:
  assumes "\<And>i. i < n \<Longrightarrow> valid_word (kw i)"
  shows "\<forall>x \<in> set (hpostings kw n). fst x < 10000000" and "\<forall>x \<in> set (hpostings kw n). snd x \<in> int ` {..<n}"
proof -
  have v: "\<forall>k<15. valid_sym (kw i ! k)" if "i < n" for i
    using assms [OF that] by (simp add: valid_word_def list_all_length)
  show "\<forall>x \<in> set (hpostings kw n). fst x < 10000000"
    using hslot_bound [OF v] by (auto simp add: hpostings_def CASEFILTER_HPAIR_COUNT_def)
  show "\<forall>x \<in> set (hpostings kw n). snd x \<in> int ` {..<n}"
    by (auto simp add: hpostings_def)
qed

lemma dpostings_slots:
  assumes "\<And>i. i < n \<Longrightarrow> valid_word (kw i)"
  shows "\<forall>x \<in> set (dpostings kw n). fst x < 10000000"
proof -
  have v: "\<forall>k<15. valid_sym (kw i ! k)" if "i < n" for i
    using assms [OF that] by (simp add: valid_word_def list_all_length)
  show ?thesis
    using dslot_bound [OF v] by (auto simp add: dpostings_def KEYWORD_LEN_def)
qed

text \<open>The index built from a list of valid words, at most \<open>2^20\<close> of them.\<close>

lemma build_index_words:
  shows "keyword_count (build_index ws) = int (length ws)"
    and "\<And>i. i < length ws \<Longrightarrow> codes (build_index ws) i = pack_keyword (ws ! i)"
    and "\<And>i. i < length ws \<Longrightarrow> valid_word (ws ! i) \<Longrightarrow> dict_word (build_index ws) i = ws ! i"
proof -
  have k0: "keyword_count (casefilter_create 1024) = 0" by (simp add: casefilter_create_def)
  note f = insert_all_facts [OF k0, of ws]
  show "keyword_count (build_index ws) = int (length ws)"
    using f by (simp add: build_index_def casefilter_finalize_def build_dindex_def build_hindex_def Let_def)
  show "codes (build_index ws) i = pack_keyword (ws ! i)" if "i < length ws" for i
    using f that by (simp add: build_index_def casefilter_finalize_def build_dindex_def build_hindex_def Let_def)
  show "dict_word (build_index ws) i = ws ! i" if "i < length ws" "valid_word (ws ! i)" for i
  proof -
    have "keywords_arr (build_index ws) i = map (\<lambda>k. (ws ! i) ! k) [0..<KEYWORD_LEN] @ [CHR 0x00]"
      using f that(1)
      by (simp add: build_index_def casefilter_finalize_def build_dindex_def build_hindex_def Let_def)
    then show ?thesis
      unfolding dict_word_def using stored_record_valid [OF that(2), of "CHR 0x00"] by (simp only:)
  qed
qed

lemma build_index_hidx:
  assumes v: "list_all valid_word ws" and n: "length ws \<le> 2 ^ 20"
  defines "P \<equiv> hpostings (\<lambda>i. ws ! i) (length ws)"
  shows "\<And>s. s \<le> 10000000 \<Longrightarrow> h_offsets (hidx (build_index ws)) s = int (slot_start P s)"
    and "\<And>s. uint (h_counts (hidx (build_index ws)) s) = int (slot_count P s)"
    and "length (h_ids (hidx (build_index ws))) = 10 * length ws"
    and "\<And>s. s < 10000000 \<Longrightarrow>
          map (\<lambda>i. h_ids (hidx (build_index ws)) ! nat (h_offsets (hidx (build_index ws)) s + int i))
            [0..<nat (h_offsets (hidx (build_index ws)) (s + 1) - h_offsets (hidx (build_index ws)) s)]
            = slot_payload P s"
proof -
  define idx0 where "idx0 = insert_all (casefilter_create 1024) ws"
  have k0: "keyword_count (casefilter_create 1024) = 0" by (simp add: casefilter_create_def)
  note f = insert_all_facts [OF k0, of ws, folded idx0_def]
  have kc: "nat (keyword_count idx0) = length ws" using f by simp
  have Pe: "hpostings (keywords_arr idx0) (length ws) = P"
    unfolding P_def by (rule hpostings_cong) (use f in \<open>simp add: hslot_stored_record\<close>)
  have vw: "valid_word (ws ! i)" if "i < length ws" for i
    using v that by (simp add: list_all_length)
  have slots: "\<forall>x \<in> set P. fst x < 10000000"
    unfolding P_def by (rule hpostings_slots) (use vw in simp)
  have "10 * length ws \<le> 10 * 2 ^ 20" using n by simp
  then have len: "length P < 2 ^ 31" by (simp add: P_def hpostings_length)
  have h: "hidx (build_index ws) =
      \<lparr> h_key_space = 1000000, h_pair_count = 10,
        h_offsets = prefix_offsets 10000000 (csr_count P (\<lambda>_. 0)),
        h_counts = csr_count P (\<lambda>_. 0),
        h_ids = snd (csr_fill P (prefix_offsets 10000000 (csr_count P (\<lambda>_. 0)),
                  replicate (nat (prefix_offsets 10000000 (csr_count P (\<lambda>_. 0)) 10000000)) 0)) \<rparr>"
    by (simp add: build_index_def casefilter_finalize_def build_dindex_def build_hindex_def Let_def
        kc hcount_pass_csr hfill_csr Pe CASEFILTER_H_KEY_SPACE_def CASEFILTER_HPAIR_COUNT_def
        flip: idx0_def)
  note t = csr_table [OF slots len]
  show "h_offsets (hidx (build_index ws)) s = int (slot_start P s)" if "s \<le> 10000000" for s
    using t(1) [OF that] by (simp add: h)
  show "uint (h_counts (hidx (build_index ws)) s) = int (slot_count P s)" for s
    using t(3) by (simp add: h)
  show "length (h_ids (hidx (build_index ws))) = 10 * length ws"
    using t(4) [where z = 0] by (simp add: h P_def hpostings_length)
  show "map (\<lambda>i. h_ids (hidx (build_index ws)) ! nat (h_offsets (hidx (build_index ws)) s + int i))
            [0..<nat (h_offsets (hidx (build_index ws)) (s + 1) - h_offsets (hidx (build_index ws)) s)]
            = slot_payload P s" if "s < 10000000" for s
    using t(5) [where z = 0, OF that] by (simp add: h)
qed

lemma build_index_del7:
  assumes v: "list_all valid_word ws" and n: "length ws \<le> 2 ^ 20"
  defines "P \<equiv> dpostings (\<lambda>i. ws ! i) (length ws)"
  shows "\<And>s. s \<le> 10000000 \<Longrightarrow> d_offsets (del7 (build_index ws)) s = int (slot_start P s)"
    and "\<And>s. uint (d_counts (del7 (build_index ws)) s) = int (slot_count P s)"
    and "length (d_idpos (del7 (build_index ws))) = 30 * length ws"
    and "\<And>s. s < 10000000 \<Longrightarrow>
          map (\<lambda>i. d_idpos (del7 (build_index ws)) ! nat (d_offsets (del7 (build_index ws)) s + int i))
            [0..<nat (d_offsets (del7 (build_index ws)) (s + 1) - d_offsets (del7 (build_index ws)) s)]
            = slot_payload P s"
proof -
  define idx0 where "idx0 = insert_all (casefilter_create 1024) ws"
  have k0: "keyword_count (casefilter_create 1024) = 0" by (simp add: casefilter_create_def)
  note f = insert_all_facts [OF k0, of ws, folded idx0_def]
  have kc: "nat (keyword_count idx0) = length ws" using f by simp
  have Pe: "dpostings (keywords_arr idx0) (length ws) = P"
    unfolding P_def by (rule dpostings_cong) (use f in \<open>simp add: dslot_stored_record\<close>)
  have vw: "valid_word (ws ! i)" if "i < length ws" for i
    using v that by (simp add: list_all_length)
  have slots: "\<forall>x \<in> set P. fst x < 10000000"
    unfolding P_def by (rule dpostings_slots) (use vw in simp)
  have "30 * length ws \<le> 30 * 2 ^ 20" using n by simp
  then have len: "length P < 2 ^ 31" by (simp add: P_def dpostings_length)
  have h: "del7 (build_index ws) =
      \<lparr> d_key_space = 10000000,
        d_offsets = prefix_offsets 10000000 (csr_count P (\<lambda>_. 0)),
        d_counts = csr_count P (\<lambda>_. 0),
        d_idpos = snd (csr_fill P (prefix_offsets 10000000 (csr_count P (\<lambda>_. 0)),
                  replicate (nat (prefix_offsets 10000000 (csr_count P (\<lambda>_. 0)) 10000000)) 0)) \<rparr>"
    by (simp add: build_index_def casefilter_finalize_def build_dindex_def build_hindex_def Let_def
        kc dcount_pass_csr dfill_csr Pe CASEFILTER_DEL_KEY_SPACE_def
        flip: idx0_def)
  note t = csr_table [OF slots len]
  show "d_offsets (del7 (build_index ws)) s = int (slot_start P s)" if "s \<le> 10000000" for s
    using t(1) [OF that] by (simp add: h)
  show "uint (d_counts (del7 (build_index ws)) s) = int (slot_count P s)" for s
    using t(3) by (simp add: h)
  show "length (d_idpos (del7 (build_index ws))) = 30 * length ws"
    using t(4) [where z = 0] by (simp add: h P_def dpostings_length)
  show "map (\<lambda>i. d_idpos (del7 (build_index ws)) ! nat (d_offsets (del7 (build_index ws)) s + int i))
            [0..<nat (d_offsets (del7 (build_index ws)) (s + 1) - d_offsets (del7 (build_index ws)) s)]
            = slot_payload P s" if "s < 10000000" for s
    using t(5) [where z = 0, OF that] by (simp add: h)
qed

text \<open>
  C6.  CSR invariants after finalize, for an index built from \<open>N \<le> 2^20\<close> words of
  length 15 over \<open>{A..J}\<close>: in both tables \<open>offsets[0] = 0\<close>,
  \<open>offsets[i + 1] - offsets[i] = counts[i]\<close> for every slot, \<open>offsets[slots]\<close> is the payload
  length; the pair table holds \<open>10 * N\<close> entries and the deletion table \<open>30 * N\<close>.
\<close>

theorem csr_invariants:
  assumes "list_all valid_word ws" and "length ws \<le> 2 ^ 20"
  shows "h_key_space (hidx (build_index ws)) * h_pair_count (hidx (build_index ws)) = 10000000
     \<and> h_offsets (hidx (build_index ws)) 0 = 0
     \<and> (\<forall>i<10000000. h_offsets (hidx (build_index ws)) (i + 1) - h_offsets (hidx (build_index ws)) i
            = uint (h_counts (hidx (build_index ws)) i))
     \<and> h_offsets (hidx (build_index ws)) 10000000 = int (length (h_ids (hidx (build_index ws))))
     \<and> length (h_ids (hidx (build_index ws))) = 10 * length ws
     \<and> d_key_space (del7 (build_index ws)) = 10000000
     \<and> d_offsets (del7 (build_index ws)) 0 = 0
     \<and> (\<forall>i<10000000. d_offsets (del7 (build_index ws)) (i + 1) - d_offsets (del7 (build_index ws)) i
            = uint (d_counts (del7 (build_index ws)) i))
     \<and> d_offsets (del7 (build_index ws)) 10000000 = int (length (d_idpos (del7 (build_index ws))))
     \<and> length (d_idpos (del7 (build_index ws))) = 30 * length ws"
proof -
  note h = build_index_hidx [OF assms]
  note d = build_index_del7 [OF assms]
  have vw: "\<And>i. i < length ws \<Longrightarrow> valid_word (ws ! i)"
    using assms(1) by (simp add: list_all_length)
  have hs: "slot_start (hpostings (\<lambda>i. ws ! i) (length ws)) 10000000 = 10 * length ws"
    using slot_start_total [OF hpostings_slots(1) [of "length ws" "\<lambda>i. ws ! i"]] vw
    by (simp add: hpostings_length)
  have ds: "slot_start (dpostings (\<lambda>i. ws ! i) (length ws)) 10000000 = 30 * length ws"
    using slot_start_total [OF dpostings_slots [of "length ws" "\<lambda>i. ws ! i"]] vw
    by (simp add: dpostings_length)
  have 1: "h_key_space (hidx (build_index ws)) * h_pair_count (hidx (build_index ws)) = 10000000"
    "d_key_space (del7 (build_index ws)) = 10000000"
    by (simp_all add: build_index_def casefilter_finalize_def build_dindex_def build_hindex_def
        Let_def CASEFILTER_H_KEY_SPACE_def CASEFILTER_HPAIR_COUNT_def CASEFILTER_DEL_KEY_SPACE_def)
  have 2: "h_offsets (hidx (build_index ws)) 0 = 0" "d_offsets (del7 (build_index ws)) 0 = 0"
    using h(1) [of 0] d(1) [of 0] by simp_all
  have 3: "h_offsets (hidx (build_index ws)) (i + 1) - h_offsets (hidx (build_index ws)) i
            = uint (h_counts (hidx (build_index ws)) i)" if "i < 10000000" for i
    using h(1) [of i] h(1) [of "i + 1"] that by (simp add: h(2) slot_start_Suc)
  have 4: "d_offsets (del7 (build_index ws)) (i + 1) - d_offsets (del7 (build_index ws)) i
            = uint (d_counts (del7 (build_index ws)) i)" if "i < 10000000" for i
    using d(1) [of i] d(1) [of "i + 1"] that by (simp add: d(2) slot_start_Suc)
  have 5: "h_offsets (hidx (build_index ws)) 10000000 = int (length (h_ids (hidx (build_index ws))))"
    using h(1) [of 10000000] by (simp add: h(3) hs)
  have 6: "d_offsets (del7 (build_index ws)) 10000000 = int (length (d_idpos (del7 (build_index ws))))"
    using d(1) [of 10000000] by (simp add: d(3) ds)
  show ?thesis
    using 1 2 3 4 5 6 h(3) d(3) by blast
qed

theorem csr_invariants_witness:
  "list_all valid_word [''ABCDEFGHIJABCDE''] \<and> length [''ABCDEFGHIJABCDE''] \<le> 2 ^ 20
   \<and> h_offsets (hidx (build_index [''ABCDEFGHIJABCDE''])) 10000000
       = int (length (h_ids (hidx (build_index [''ABCDEFGHIJABCDE'']))))
   \<and> length (h_ids (hidx (build_index [''ABCDEFGHIJABCDE'']))) = 10 * length [''ABCDEFGHIJABCDE'']
   \<and> length (d_idpos (del7 (build_index [''ABCDEFGHIJABCDE'']))) = 30 * length [''ABCDEFGHIJABCDE'']"
proof -
  have v: "list_all valid_word [''ABCDEFGHIJABCDE'']" by (simp add: valid_word_def valid_sym_def)
  have l: "length [''ABCDEFGHIJABCDE''] \<le> 2 ^ 20" by simp
  show ?thesis using v l csr_invariants [OF v l] by blast
qed

text \<open>
  C7 as stated fails: ties are not broken by pair index.  With the one-word dictionary
  below and a query sharing its blocks 0, 1 and 2, the pairs 0, 1 and 4 have a posting of
  length 1 and all others are empty; the sort leaves pair 4 ahead of pairs 0 and 1.
\<close>

theorem probe_order_tie_counterexample:
  "map pp_len (query_pairs (build_index [''ABCDEFGHIJABCDE'']) ''ABCDEFGHIAAAAAA'')
     = [1, 1, 0, 0, 1, 0, 0, 0, 0, 0]
   \<and> probe_order (build_index [''ABCDEFGHIJABCDE'']) ''ABCDEFGHIAAAAAA''
     = [2, 3, 5, 6, 7, 8, 9, 4, 0, 1]"
proof -
  have v: "list_all valid_word [''ABCDEFGHIJABCDE'']" by (simp add: valid_word_def valid_sym_def)
  have l: "length [''ABCDEFGHIJABCDE''] \<le> 2 ^ 20" by simp
  note h = build_index_hidx(1) [OF v l]
  have hw: "map (hslot ''ABCDEFGHIJABCDE'') [0,1,2,3,4,5,6,7,8,9]
      = [543210, 1876210, 2109210, 3432210, 4876543, 5109543, 6432543, 7109876, 8432876, 9432109]"
    by (simp add: hslot_def pack_key6_def blocks_of_def pair_key_def pair_i_def pair_j_def
        nib32_def char_val_def upt6 upt3 upt5 CASEFILTER_H_KEY_SPACE_def)
  have hq: "map (hslot ''ABCDEFGHIAAAAAA'') [0,1,2,3,4,5,6,7,8,9]
      = [543210, 1876210, 2000210, 3000210, 4876543, 5000543, 6000543, 7000876, 8000876, 9000000]"
    by (simp add: hslot_def pack_key6_def blocks_of_def pair_key_def pair_i_def pair_j_def
        nib32_def char_val_def upt6 upt3 upt5 CASEFILTER_H_KEY_SPACE_def)
  have P: "hpostings (\<lambda>i. [''ABCDEFGHIJABCDE''] ! i) (length [''ABCDEFGHIJABCDE''])
      = [(543210, 0), (1876210, 0), (2109210, 0), (3432210, 0), (4876543, 0), (5109543, 0),
         (6432543, 0), (7109876, 0), (8432876, 0), (9432109, 0)]"
    using hw by (simp add: hpostings_def CASEFILTER_HPAIR_COUNT_def upt10)
  have len: "h_offsets (hidx (build_index [''ABCDEFGHIJABCDE''])) (s + 1)
       - h_offsets (hidx (build_index [''ABCDEFGHIJABCDE''])) s
      = int (slot_count [(543210, 0::int), (1876210, 0), (2109210, 0), (3432210, 0), (4876543, 0),
          (5109543, 0), (6432543, 0), (7109876, 0), (8432876, 0), (9432109, 0)] s)"
    if "s < 10000000" for s
    using h [of s] h [of "s + 1"] that unfolding P by (simp add: slot_start_Suc)
  note L = len [of 543210] len [of 1876210] len [of 2000210] len [of 3000210] len [of 4876543]
      len [of 5000543] len [of 6000543] len [of 7000876] len [of 8000876] len [of 9000000]
  have qp: "map pp_len (query_pairs (build_index [''ABCDEFGHIJABCDE'']) ''ABCDEFGHIAAAAAA'')
     = [1, 1, 0, 0, 1, 0, 0, 0, 0, 0]"
    using hq L by (simp add: query_pairs_def upt10 slot_count_def)
  define pairs where "pairs = query_pairs (build_index [''ABCDEFGHIJABCDE'']) ''ABCDEFGHIAAAAAA''"
  have lp: "length pairs = 10" by (simp add: pairs_def query_pairs_length)
  have "pp_len (pairs ! i) = [1, 1, 0, 0, 1, 0, 0, 0, 0, 0] ! i" if "i < 10" for i
    using qp that lp unfolding pairs_def [symmetric] by (metis nth_map)
  from this [of 0] this [of 1] this [of 2] this [of 3] this [of 4] this [of 5] this [of 6]
    this [of 7] this [of 8] this [of 9]
  have n: "pp_len (pairs ! 0) = 1" "pp_len (pairs ! 1) = 1" "pp_len (pairs ! 2) = 0"
      "pp_len (pairs ! 3) = 0" "pp_len (pairs ! 4) = 1" "pp_len (pairs ! 5) = 0"
      "pp_len (pairs ! 6) = 0" "pp_len (pairs ! 7) = 0" "pp_len (pairs ! 8) = 0"
      "pp_len (pairs ! 9) = 0"
    by simp_all
  have so: "sort_order pairs = [2, 3, 5, 6, 7, 8, 9, 4, 0, 1]"
    using n by (simp add: sort_order_unfold sort_step_def)
  show ?thesis using qp so by (simp add: probe_order_def pairs_def)
qed

section \<open>Edit distance bounds\<close>

lemma levenshtein_Nil2 [simp]: "levenshtein xs [] = length xs"
  by (cases xs) simp_all

lemma levenshtein_le_hamming:
  "length xs = length ys \<Longrightarrow> levenshtein xs ys \<le> hamming xs ys"
proof (induction xs ys rule: list_induct2)
  case Nil
  show ?case by (simp add: hamming_def)
next
  case (Cons x xs y ys)
  have "levenshtein (x # xs) (y # ys) \<le> levenshtein xs ys + (if x = y then 0 else 1)"
    by simp
  also have "\<dots> \<le> hamming xs ys + (if x = y then 0 else 1)"
    using Cons.IH by simp
  also have "\<dots> = hamming (x # xs) (y # ys)" by (simp add: hamming_def)
  finally show ?case .
qed

lemma hamming_sym: "hamming xs ys = hamming ys xs"
  unfolding hamming_def by (induction xs ys rule: list_induct2') auto

lemma levenshtein_sym: "levenshtein xs ys = levenshtein ys xs"
  by (induction xs ys rule: levenshtein.induct) (simp_all add: min.commute min.left_commute eq_commute)

lemma levenshtein_drop_left:
  "levenshtein (a @ x # b) ys \<le> Suc (levenshtein (a @ b) ys)"
proof (induction a arbitrary: ys)
  case Nil
  show ?case by (cases ys) simp_all
next
  case (Cons h a)
  note outer = Cons.IH
  show ?case
  proof (induction ys)
    case Nil
    show ?case by simp
  next
    case (Cons y ys)
    have 1: "levenshtein (a @ x # b) (y # ys) \<le> Suc (levenshtein (a @ b) (y # ys))"
      by (rule outer)
    have 2: "levenshtein (a @ x # b) ys \<le> Suc (levenshtein (a @ b) ys)"
      by (rule outer)
    have 3: "levenshtein ((h # a) @ x # b) ys \<le> Suc (levenshtein ((h # a) @ b) ys)"
      by (rule Cons)
    show ?case using 1 2 3 by (simp add: min_def)
  qed
qed

lemma levenshtein_delete_left:
  assumes "p < length xs"
  shows "levenshtein xs ys \<le> Suc (levenshtein (delete_at p xs) ys)"
proof -
  have "xs = take p xs @ xs ! p # drop (Suc p) xs"
    using assms by (simp add: id_take_nth_drop)
  then have "levenshtein xs ys = levenshtein (take p xs @ xs ! p # drop (Suc p) xs) ys"
    by simp
  also have "\<dots> \<le> Suc (levenshtein (take p xs @ drop (Suc p) xs) ys)"
    by (rule levenshtein_drop_left)
  finally show ?thesis by (simp add: delete_at_def)
qed

lemma levenshtein_delete_both:
  assumes "p < length xs" and "r < length ys"
    and "length (delete_at p xs) = length (delete_at r ys)"
  shows "levenshtein xs ys \<le> 2 + hamming (delete_at p xs) (delete_at r ys)"
proof -
  have "levenshtein xs ys \<le> Suc (levenshtein (delete_at p xs) ys)"
    by (rule levenshtein_delete_left [OF assms(1)])
  also have "levenshtein (delete_at p xs) ys = levenshtein ys (delete_at p xs)"
    by (rule levenshtein_sym)
  also have "\<dots> \<le> Suc (levenshtein (delete_at r ys) (delete_at p xs))"
    by (rule levenshtein_delete_left [OF assms(2)])
  also have "levenshtein (delete_at r ys) (delete_at p xs) \<le> hamming (delete_at r ys) (delete_at p xs)"
    by (rule levenshtein_le_hamming) (simp add: assms(3))
  also have "hamming (delete_at r ys) (delete_at p xs) = hamming (delete_at p xs) (delete_at r ys)"
    by (rule hamming_sym)
  finally show ?thesis by simp
qed

section \<open>Soundness of the search\<close>

lemma scan_a_sound:
  "fst (scan_a cds qcode k g ids visited) \<Longrightarrow>
   \<exists>wid \<in> set ids. hamming_packed15 qcode (cds (nat wid)) \<le> k"
  by (induction ids arbitrary: visited) (auto split: if_splits)

lemma phase_a_sound:
  "fst (phase_a idx pairs qcode k g ps visited) \<Longrightarrow>
   \<exists>p \<in> set ps. \<exists>wid \<in> set (posting_a idx (pairs ! p)).
      hamming_packed15 qcode (codes idx (nat wid)) \<le> k"
proof (induction ps arbitrary: visited)
  case Nil
  then show ?case by simp
next
  case (Cons p ps)
  show ?case
  proof (cases "pp_len (pairs ! p) = 0")
    case True
    with Cons show ?thesis by auto
  next
    case False
    obtain hit v' where s: "scan_a (codes idx) qcode k g (posting_a idx (pairs ! p)) visited = (hit, v')"
      by (cases "scan_a (codes idx) qcode k g (posting_a idx (pairs ! p)) visited")
    show ?thesis
    proof (cases hit)
      case True
      then have "fst (scan_a (codes idx) qcode k g (posting_a idx (pairs ! p)) visited)"
        by (simp add: s)
      from scan_a_sound [OF this] show ?thesis by auto
    next
      case hf: False
      with Cons.prems False s have "fst (phase_a idx pairs qcode k g ps v')" by simp
      from Cons.IH [OF this] show ?thesis by auto
    qed
  qed
qed

lemma scan_b_sound:
  "fst (scan_b cds qd k g vs visited) \<Longrightarrow>
   \<exists>v \<in> set vs. 2 + hamming_packed14 qd
       (casefilter_pack_delete (cds (nat (sint (v AND 0xFFFFF)))) (unat (drop_bit 20 v AND 0xF))) \<le> k"
  by (induction vs arbitrary: visited) (auto simp add: Let_def split: if_splits)

lemma phase_b_sound:
  "fst (phase_b idx query qcode k g poss visited) \<Longrightarrow>
   \<exists>pos \<in> set poss. \<exists>v \<in> set (posting_d idx (nat (sint (pack_key7 (take 7 (qdel_string query pos))))))
         \<union> set (posting_d idx (nat (sint (pack_key7 (take 7 (drop 7 (qdel_string query pos))))))).
      2 + hamming_packed14 (casefilter_pack_delete qcode pos)
       (casefilter_pack_delete (codes idx (nat (sint (v AND 0xFFFFF)))) (unat (drop_bit 20 v AND 0xF))) \<le> k"
proof (induction poss arbitrary: visited)
  case Nil
  then show ?case by simp
next
  case (Cons pos poss)
  define l where "l = nat (sint (pack_key7 (take 7 (qdel_string query pos))))"
  define r where "r = nat (sint (pack_key7 (take 7 (drop 7 (qdel_string query pos)))))"
  obtain h1 v1 where s1: "scan_b (codes idx) (casefilter_pack_delete qcode pos) k g (posting_d idx l) visited = (h1, v1)"
    by (cases "scan_b (codes idx) (casefilter_pack_delete qcode pos) k g (posting_d idx l) visited")
  obtain h2 v2 where s2: "scan_b (codes idx) (casefilter_pack_delete qcode pos) k g (posting_d idx r) v1 = (h2, v2)"
    by (cases "scan_b (codes idx) (casefilter_pack_delete qcode pos) k g (posting_d idx r) v1")
  show ?case
  proof (cases h1)
    case True
    then have "fst (scan_b (codes idx) (casefilter_pack_delete qcode pos) k g (posting_d idx l) visited)"
      by (simp add: s1)
    from scan_b_sound [OF this] show ?thesis by (auto simp add: l_def)
  next
    case f1: False
    show ?thesis
    proof (cases h2)
      case True
      then have "fst (scan_b (codes idx) (casefilter_pack_delete qcode pos) k g (posting_d idx r) v1)"
        by (simp add: s2)
      from scan_b_sound [OF this] show ?thesis by (auto simp add: r_def)
    next
      case f2: False
      from Cons.prems have "fst (phase_b idx query qcode k g poss v2)"
        using s1 s2 f1 f2 by (simp add: Let_def flip: l_def r_def)
      from Cons.IH [OF this] show ?thesis by auto
    qed
  qed
qed

subsection \<open>What the postings of a built index hold\<close>

lemma slot_payload_subset: "set (slot_payload P s) \<subseteq> snd ` set P"
  by (auto simp add: slot_payload_def)

lemma slot_payload_member:
  "(s, v) \<in> set P \<Longrightarrow> v \<in> set (slot_payload P s)"
  by (force simp add: slot_payload_def)

lemma query_pairs_nth:
  "p < 10 \<Longrightarrow> query_pairs idx q ! p =
     \<lparr> pp_start = h_offsets (hidx idx) (hslot q p),
       pp_len = h_offsets (hidx idx) (hslot q p + 1) - h_offsets (hidx idx) (hslot q p) \<rparr>"
  by (simp add: query_pairs_def)

lemma valid_word_nth: "valid_word w \<Longrightarrow> \<forall>i<15. valid_sym (w ! i)"
  by (simp add: valid_word_def list_all_length)

lemma posting_a_built:
  assumes "list_all valid_word ws" and "length ws \<le> 2 ^ 20" and "valid_word q" and "p < 10"
  shows "posting_a (build_index ws) (query_pairs (build_index ws) q ! p)
      = slot_payload (hpostings (\<lambda>i. ws ! i) (length ws)) (hslot q p)"
proof -
  have s: "hslot q p < 10000000"
    by (rule hslot_bound [OF valid_word_nth [OF assms(3)] assms(4)])
  show ?thesis
    using build_index_hidx(4) [OF assms(1,2) s]
    by (simp add: posting_a_def query_pairs_nth [OF assms(4)])
qed

lemma posting_d_built:
  assumes "list_all valid_word ws" and "length ws \<le> 2 ^ 20" and "s < 10000000"
  shows "posting_d (build_index ws) s = slot_payload (dpostings (\<lambda>i. ws ! i) (length ws)) s"
proof -
  let ?P = "dpostings (\<lambda>i. ws ! i) (length ws)"
  note d = build_index_del7 [OF assms(1,2)]
  have o1: "d_offsets (del7 (build_index ws)) s = int (slot_start ?P s)"
    using d(1) [of s] assms(3) by simp
  have o2: "d_offsets (del7 (build_index ws)) (Suc s) = int (slot_start ?P s) + int (slot_count ?P s)"
    using d(1) [of "Suc s"] assms(3) by (simp add: slot_start_Suc)
  show ?thesis
  proof (cases "slot_count ?P s = 0")
    case True
    then have "slot_payload ?P s = []" by (metis length_0_conv slot_payload_length)
    then show ?thesis using True by (simp add: posting_d_def Let_def o1 o2)
  next
    case False
    then show ?thesis
      using d(4) [OF assms(3)] by (simp add: posting_d_def Let_def o1 o2)
  qed
qed

lemma hpostings_member:
  "x \<in> set (hpostings kw n) \<longleftrightarrow> (\<exists>i<n. \<exists>p<10. x = (hslot (kw i) p, int i))"
proof
  assume "x \<in> set (hpostings kw n)"
  then obtain i p where "i < n" "p < 10" "x = (hslot (kw i) p, int i)"
    by (auto simp add: hpostings_def CASEFILTER_HPAIR_COUNT_def)
  then show "\<exists>i<n. \<exists>p<10. x = (hslot (kw i) p, int i)" by blast
next
  assume "\<exists>i<n. \<exists>p<10. x = (hslot (kw i) p, int i)"
  then obtain i p where "i < n" "p < 10" "x = (hslot (kw i) p, int i)" by blast
  then show "x \<in> set (hpostings kw n)"
    by (force simp add: hpostings_def CASEFILTER_HPAIR_COUNT_def)
qed

lemma dpostings_member:
  "x \<in> set (dpostings kw n) \<longleftrightarrow>
     (\<exists>i<n. \<exists>pos<15. x = (lslot_of (kw i) pos, packed_idpos i pos)
                    \<or> x = (rslot_of (kw i) pos, packed_idpos i pos))"
proof
  assume "x \<in> set (dpostings kw n)"
  then obtain i pos where "i < n" "pos < 15"
    "x = (lslot_of (kw i) pos, packed_idpos i pos) \<or> x = (rslot_of (kw i) pos, packed_idpos i pos)"
    by (auto simp add: dpostings_def KEYWORD_LEN_def)
  then show "\<exists>i<n. \<exists>pos<15. x = (lslot_of (kw i) pos, packed_idpos i pos)
                    \<or> x = (rslot_of (kw i) pos, packed_idpos i pos)" by blast
next
  assume "\<exists>i<n. \<exists>pos<15. x = (lslot_of (kw i) pos, packed_idpos i pos)
                    \<or> x = (rslot_of (kw i) pos, packed_idpos i pos)"
  then obtain i pos where "i < n" "pos < 15"
    "x = (lslot_of (kw i) pos, packed_idpos i pos) \<or> x = (rslot_of (kw i) pos, packed_idpos i pos)"
    by blast
  then show "x \<in> set (dpostings kw n)"
    by (force simp add: dpostings_def KEYWORD_LEN_def)
qed
lemma packed_idpos_decode:
  assumes "i < 2 ^ 20" and "pos < 16"
  shows "nat (sint (packed_idpos i pos AND 0xFFFFF)) = i"
    and "unat (drop_bit 20 (packed_idpos i pos) AND 0xF) = pos"
proof -
  have m20: "(0xFFFFF :: u32) = mask 20" by (simp add: mask_eq_exp_minus_1)
  have m4: "(0xF :: u32) = mask 4" by (simp add: mask_eq_exp_minus_1)
  have lo: "packed_idpos i pos AND 0xFFFFF = word_of_nat i"
  proof (rule bit_eqI)
    fix k
    have "bit i k \<Longrightarrow> k < 20"
      using assms(1) by (metis bit_take_bit_iff take_bit_nat_eq_self)
    then show "bit (packed_idpos i pos AND 0xFFFFF) k = bit (word_of_nat i :: u32) k"
      unfolding packed_idpos_def m20
      by (auto simp add: bit_and_iff bit_or_iff bit_mask_iff bit_push_bit_iff bit_of_nat_iff)
  qed
  have "i < 2 ^ 31" using assms(1) by simp
  then show "nat (sint (packed_idpos i pos AND 0xFFFFF)) = i"
    by (simp add: lo sint_of_nat_small)
  have hi: "drop_bit 20 (packed_idpos i pos) AND 0xF = word_of_nat pos"
  proof (rule bit_eqI)
    fix k
    have "bit pos k \<Longrightarrow> k < 4"
      using assms(2) by (rule bit_nat_less16)
    then show "bit (drop_bit 20 (packed_idpos i pos) AND 0xF) k = bit (word_of_nat pos :: u32) k"
      unfolding packed_idpos_def m20 m4
      by (auto simp add: bit_and_iff bit_or_iff bit_mask_iff bit_push_bit_iff bit_of_nat_iff
          bit_drop_bit_eq)
  qed
  show "unat (drop_bit 20 (packed_idpos i pos) AND 0xF) = pos"
    using assms(2) by (simp add: hi unat_of_nat)
qed

lemma qdel_string_eq:
  assumes "length q = 15" and "pos < 15"
  shows "qdel_string q pos = delete_at pos q"
  using assms by (simp add: qdel_string_def delete_at_def KEYWORD_LEN_def)

lemma query_dslots:
  assumes "valid_word q" and "pos < 15"
  shows "nat (sint (pack_key7 (take 7 (qdel_string q pos)))) = lslot_of q pos"
    and "nat (sint (pack_key7 (take 7 (drop 7 (qdel_string q pos))))) = rslot_of q pos"
proof -
  have "length q = 15" using assms(1) by (simp add: valid_word_def)
  then have "qdel_string q pos = del_string q pos"
    using assms(2) by (simp add: qdel_string_eq del_string_eq)
  then show "nat (sint (pack_key7 (take 7 (qdel_string q pos)))) = lslot_of q pos"
    and "nat (sint (pack_key7 (take 7 (drop 7 (qdel_string q pos))))) = rslot_of q pos"
    by (simp_all add: lslot_of_def rslot_of_def)
qed

subsection \<open>A hit names a dictionary word within distance 3\<close>

lemma search_hit_cases:
  assumes "fst (casefilter_search idx q k st) = 1"
  shows "length q = 15 \<and> (\<exists>g visited.
      fst (phase_a idx (query_pairs idx q) (pack_keyword q) k g (sort_order (query_pairs idx q)) visited)
    \<or> fst (phase_b idx q (pack_keyword q) k g [0..<15] visited))"
proof -
  have len: "length q = 15"
    using assms by (auto simp add: casefilter_search_def KEYWORD_LEN_def split: if_splits)
  define st1 where "st1 = (if keyword_count idx > visited_cap st
                   then \<lparr> visited_buf = Some (\<lambda>_. 0), visited_cap = keyword_count idx, gen = 1 \<rparr>
                   else st)"
  from assms len obtain buf where buf: "visited_buf st1 = Some buf"
    by (cases "visited_buf st1") (auto simp add: casefilter_search_def KEYWORD_LEN_def Let_def st1_def)
  define g2 where "g2 = (if gen st1 + 1 = 0 then 1 else gen st1 + 1)"
  define v1 where "v1 = (if gen st1 + 1 = 0 then (\<lambda>_. 0) else buf)"
  define ra where "ra = phase_a idx (query_pairs idx q) (pack_keyword q) k g2
      (sort_order (query_pairs idx q)) v1"
  define rb where "rb = phase_b idx q (pack_keyword q) k (g2 + 1) [0..<15] (snd ra)"
  have "fst (casefilter_search idx q k st) = (if fst ra then 1 else if fst rb then 1 else 0)"
    using len buf
    by (simp add: casefilter_search_def KEYWORD_LEN_def Let_def ra_def rb_def g2_def v1_def
        flip: st1_def)
  with assms have "fst ra \<or> fst rb" by (auto split: if_splits)
  then show ?thesis using len unfolding ra_def rb_def by blast
qed

lemma search_sound_aux:
  assumes v: "list_all valid_word ws" and n: "length ws \<le> 2 ^ 20" and q: "valid_word q"
    and hit: "fst (casefilter_search (build_index ws) q 3 st) = 1"
  shows "\<exists>w \<in> set ws. levenshtein q w \<le> 3"
proof -
  define idx where "idx = build_index ws"
  have vw: "valid_word (ws ! i)" if "i < length ws" for i
    using v that by (simp add: list_all_length)
  have lq: "length q = 15" using q by (simp add: valid_word_def)
  from search_hit_cases [OF hit] obtain g visited where
    cases: "fst (phase_a idx (query_pairs idx q) (pack_keyword q) 3 g (sort_order (query_pairs idx q)) visited)
      \<or> fst (phase_b idx q (pack_keyword q) 3 g [0..<15] visited)"
    unfolding idx_def by blast
  then show ?thesis
  proof
    assume "fst (phase_a idx (query_pairs idx q) (pack_keyword q) 3 g (sort_order (query_pairs idx q)) visited)"
    from phase_a_sound [OF this] obtain p wid where
      p: "p \<in> set (sort_order (query_pairs idx q))"
      and wid: "wid \<in> set (posting_a idx (query_pairs idx q ! p))"
      and h: "hamming_packed15 (pack_keyword q) (codes idx (nat wid)) \<le> 3"
      by blast
    from p have p10: "p < 10" by (simp add: sort_order_props(2))
    from wid have "wid \<in> set (slot_payload (hpostings (\<lambda>i. ws ! i) (length ws)) (hslot q p))"
      unfolding idx_def posting_a_built [OF v n q p10] .
    then have "wid \<in> snd ` set (hpostings (\<lambda>i. ws ! i) (length ws))"
      by (rule subsetD [OF slot_payload_subset])
    then obtain i where i: "i < length ws" "wid = int i"
      by (auto simp add: hpostings_member)
    have "codes idx (nat wid) = pack_keyword (ws ! i)"
      using build_index_words(2) [OF i(1)] by (simp add: idx_def i(2))
    with h have "hamming_packed15 (pack_keyword q) (pack_keyword (ws ! i)) \<le> 3" by simp
    then have "hamming q (ws ! i) \<le> 3"
      by (simp add: hamming_packed15_words [OF q vw [OF i(1)]])
    moreover have "levenshtein q (ws ! i) \<le> hamming q (ws ! i)"
      by (rule levenshtein_le_hamming) (use lq vw [OF i(1)] in \<open>simp add: valid_word_def\<close>)
    ultimately have "levenshtein q (ws ! i) \<le> 3" by simp
    then show ?thesis using i(1) by (metis nth_mem)
  next
    assume "fst (phase_b idx q (pack_keyword q) 3 g [0..<15] visited)"
    from phase_b_sound [OF this] obtain pos x where
      pos': "pos \<in> set [0..<15]"
      and x': "x \<in> set (posting_d idx (nat (sint (pack_key7 (take 7 (qdel_string q pos))))))
         \<union> set (posting_d idx (nat (sint (pack_key7 (take 7 (drop 7 (qdel_string q pos)))))))"
      and h: "2 + hamming_packed14 (casefilter_pack_delete (pack_keyword q) pos)
         (casefilter_pack_delete (codes idx (nat (sint (x AND 0xFFFFF)))) (unat (drop_bit 20 x AND 0xF))) \<le> 3"
      by blast
    from pos' have pos: "pos < 15" by simp
    from x' have x: "x \<in> set (posting_d idx (lslot_of q pos)) \<union> set (posting_d idx (rslot_of q pos))"
      unfolding query_dslots [OF q pos] .
    note b = dslot_bound [OF valid_word_nth [OF q] pos]
    from x have "x \<in> set (slot_payload (dpostings (\<lambda>i. ws ! i) (length ws)) (lslot_of q pos))
        \<union> set (slot_payload (dpostings (\<lambda>i. ws ! i) (length ws)) (rslot_of q pos))"
      unfolding idx_def posting_d_built [OF v n b(1)] posting_d_built [OF v n b(2)] .
    then consider "x \<in> set (slot_payload (dpostings (\<lambda>i. ws ! i) (length ws)) (lslot_of q pos))"
      | "x \<in> set (slot_payload (dpostings (\<lambda>i. ws ! i) (length ws)) (rslot_of q pos))"
      by blast
    then have "x \<in> snd ` set (dpostings (\<lambda>i. ws ! i) (length ws))"
      by cases (rule subsetD [OF slot_payload_subset], assumption)+
    then obtain i pw where i: "i < length ws" and pw: "pw < 15" and xe: "x = packed_idpos i pw"
      by (auto simp add: dpostings_member)
    have "i < 2 ^ 20" using i n by simp
    moreover have "pw < 16" using pw by simp
    ultimately have dec: "nat (sint (x AND 0xFFFFF)) = i" "unat (drop_bit 20 x AND 0xF) = pw"
      unfolding xe by (rule packed_idpos_decode)+
    have c: "codes idx i = pack_keyword (ws ! i)"
      using build_index_words(2) [OF i] by (simp add: idx_def)
    from h have "hamming_packed14 (casefilter_pack_delete (pack_keyword q) pos)
         (casefilter_pack_delete (pack_keyword (ws ! i)) pw) \<le> 1"
      by (simp add: dec c)
    then have h1: "hamming (delete_at pos q) (delete_at pw (ws ! i)) \<le> 1"
      by (simp add: hamming_packed14_deleted [OF q vw [OF i] pos pw])
    have lw: "length (ws ! i) = 15" using vw [OF i] by (simp add: valid_word_def)
    have "levenshtein q (ws ! i) \<le> 2 + hamming (delete_at pos q) (delete_at pw (ws ! i))"
      by (rule levenshtein_delete_both)
         (use pos pw lq lw valid_delete_at(1) [OF q pos] valid_delete_at(1) [OF vw [OF i] pw] in simp_all)
    with h1 have "levenshtein q (ws ! i) \<le> 3" by simp
    then show ?thesis using i by (metis nth_mem)
  qed
qed

subsection \<open>Phase A finds every word within Hamming distance 3\<close>

lemma length15_cases:
  assumes "length (ds :: 'a list) = 15"
  obtains d0 d1 d2 d3 d4 d5 d6 d7 d8 d9 d10 d11 d12 d13 d14
  where "ds = [d0,d1,d2,d3,d4,d5,d6,d7,d8,d9,d10,d11,d12,d13,d14]"
proof -
  from assms have "length ds = Suc (Suc (Suc (Suc (Suc (Suc (Suc (Suc (Suc (Suc (Suc (Suc (Suc
    (Suc (Suc 0))))))))))))))" by simp
  then show ?thesis using that by (auto simp add: length_Suc_conv)
qed

lemma two_blocks_agree:
  fixes d0 d1 d2 d3 d4 :: nat
  assumes "d0 + d1 + d2 + d3 + d4 \<le> 3"
  shows "(d0 = 0 \<and> d1 = 0) \<or> (d0 = 0 \<and> d2 = 0) \<or> (d0 = 0 \<and> d3 = 0) \<or> (d0 = 0 \<and> d4 = 0)
     \<or> (d1 = 0 \<and> d2 = 0) \<or> (d1 = 0 \<and> d3 = 0) \<or> (d1 = 0 \<and> d4 = 0)
     \<or> (d2 = 0 \<and> d3 = 0) \<or> (d2 = 0 \<and> d4 = 0) \<or> (d3 = 0 \<and> d4 = 0)"
  using assms by presburger

lemma pigeonhole_pair:
  assumes "length q = 15" and "length w = 15" and "hamming q w \<le> 3"
  shows "\<exists>p<10. hslot q p = hslot w p"
proof -
  from assms(1) obtain q0 q1 q2 q3 q4 q5 q6 q7 q8 q9 q10 q11 q12 q13 q14
    where q: "q = [q0,q1,q2,q3,q4,q5,q6,q7,q8,q9,q10,q11,q12,q13,q14]"
    by (rule length15_cases)
  from assms(2) obtain w0 w1 w2 w3 w4 w5 w6 w7 w8 w9 w10 w11 w12 w13 w14
    where w: "w = [w0,w1,w2,w3,w4,w5,w6,w7,w8,w9,w10,w11,w12,w13,w14]"
    by (rule length15_cases)
  define d0 :: nat where "d0 = of_bool (q0 \<noteq> w0) + of_bool (q1 \<noteq> w1) + of_bool (q2 \<noteq> w2)"
  define d1 :: nat where "d1 = of_bool (q3 \<noteq> w3) + of_bool (q4 \<noteq> w4) + of_bool (q5 \<noteq> w5)"
  define d2 :: nat where "d2 = of_bool (q6 \<noteq> w6) + of_bool (q7 \<noteq> w7) + of_bool (q8 \<noteq> w8)"
  define d3 :: nat where "d3 = of_bool (q9 \<noteq> w9) + of_bool (q10 \<noteq> w10) + of_bool (q11 \<noteq> w11)"
  define d4 :: nat where "d4 = of_bool (q12 \<noteq> w12) + of_bool (q13 \<noteq> w13) + of_bool (q14 \<noteq> w14)"
  have "hamming q w = d0 + d1 + d2 + d3 + d4"
    by (simp add: q w hamming_sum_list d0_def d1_def d2_def d3_def d4_def)
  with assms(3) have "d0 + d1 + d2 + d3 + d4 \<le> 3" by simp
  from two_blocks_agree [OF this]
  have c: "(d0 = 0 \<and> d1 = 0) \<or> (d0 = 0 \<and> d2 = 0) \<or> (d0 = 0 \<and> d3 = 0) \<or> (d0 = 0 \<and> d4 = 0)
     \<or> (d1 = 0 \<and> d2 = 0) \<or> (d1 = 0 \<and> d3 = 0) \<or> (d1 = 0 \<and> d4 = 0)
     \<or> (d2 = 0 \<and> d3 = 0) \<or> (d2 = 0 \<and> d4 = 0) \<or> (d3 = 0 \<and> d4 = 0)" .
  have e0: "d0 = 0 \<longleftrightarrow> q0 = w0 \<and> q1 = w1 \<and> q2 = w2" by (auto simp add: d0_def)
  have e1: "d1 = 0 \<longleftrightarrow> q3 = w3 \<and> q4 = w4 \<and> q5 = w5" by (auto simp add: d1_def)
  have e2: "d2 = 0 \<longleftrightarrow> q6 = w6 \<and> q7 = w7 \<and> q8 = w8" by (auto simp add: d2_def)
  have e3: "d3 = 0 \<longleftrightarrow> q9 = w9 \<and> q10 = w10 \<and> q11 = w11" by (auto simp add: d3_def)
  have e4: "d4 = 0 \<longleftrightarrow> q12 = w12 \<and> q13 = w13 \<and> q14 = w14" by (auto simp add: d4_def)
  have k: "hslot q p = hslot w p" if "pair_key (blocks_of q) p = pair_key (blocks_of w) p" for p
    using that by (simp add: hslot_def)
  have pk: "pair_key (blocks_of q) 0 = [q0,q1,q2,q3,q4,q5]" "pair_key (blocks_of w) 0 = [w0,w1,w2,w3,w4,w5]"
    "pair_key (blocks_of q) 1 = [q0,q1,q2,q6,q7,q8]" "pair_key (blocks_of w) 1 = [w0,w1,w2,w6,w7,w8]"
    "pair_key (blocks_of q) 2 = [q0,q1,q2,q9,q10,q11]" "pair_key (blocks_of w) 2 = [w0,w1,w2,w9,w10,w11]"
    "pair_key (blocks_of q) 3 = [q0,q1,q2,q12,q13,q14]" "pair_key (blocks_of w) 3 = [w0,w1,w2,w12,w13,w14]"
    "pair_key (blocks_of q) 4 = [q3,q4,q5,q6,q7,q8]" "pair_key (blocks_of w) 4 = [w3,w4,w5,w6,w7,w8]"
    "pair_key (blocks_of q) 5 = [q3,q4,q5,q9,q10,q11]" "pair_key (blocks_of w) 5 = [w3,w4,w5,w9,w10,w11]"
    "pair_key (blocks_of q) 6 = [q3,q4,q5,q12,q13,q14]" "pair_key (blocks_of w) 6 = [w3,w4,w5,w12,w13,w14]"
    "pair_key (blocks_of q) 7 = [q6,q7,q8,q9,q10,q11]" "pair_key (blocks_of w) 7 = [w6,w7,w8,w9,w10,w11]"
    "pair_key (blocks_of q) 8 = [q6,q7,q8,q12,q13,q14]" "pair_key (blocks_of w) 8 = [w6,w7,w8,w12,w13,w14]"
    "pair_key (blocks_of q) 9 = [q9,q10,q11,q12,q13,q14]" "pair_key (blocks_of w) 9 = [w9,w10,w11,w12,w13,w14]"
    by (simp_all add: q w pair_key_def blocks_of_def pair_i_def pair_j_def upt3 upt5)
  from c consider "d0 = 0 \<and> d1 = 0" | "d0 = 0 \<and> d2 = 0" | "d0 = 0 \<and> d3 = 0" | "d0 = 0 \<and> d4 = 0"
    | "d1 = 0 \<and> d2 = 0" | "d1 = 0 \<and> d3 = 0" | "d1 = 0 \<and> d4 = 0"
    | "d2 = 0 \<and> d3 = 0" | "d2 = 0 \<and> d4 = 0" | "d3 = 0 \<and> d4 = 0" by blast
  then show ?thesis
  proof cases
    case 1
    with pk e0 e1 have "pair_key (blocks_of q) 0 = pair_key (blocks_of w) 0" by simp
    then have "hslot q 0 = hslot w 0" by (rule k)
    then show ?thesis by (intro exI [of _ 0]) simp
  next
    case 2
    with pk e0 e2 have "pair_key (blocks_of q) 1 = pair_key (blocks_of w) 1" by simp
    then have "hslot q 1 = hslot w 1" by (rule k)
    then show ?thesis by (intro exI [of _ 1]) simp
  next
    case 3
    with pk e0 e3 have "pair_key (blocks_of q) 2 = pair_key (blocks_of w) 2" by simp
    then have "hslot q 2 = hslot w 2" by (rule k)
    then show ?thesis by (intro exI [of _ 2]) simp
  next
    case 4
    with pk e0 e4 have "pair_key (blocks_of q) 3 = pair_key (blocks_of w) 3" by simp
    then have "hslot q 3 = hslot w 3" by (rule k)
    then show ?thesis by (intro exI [of _ 3]) simp
  next
    case 5
    with pk e1 e2 have "pair_key (blocks_of q) 4 = pair_key (blocks_of w) 4" by simp
    then have "hslot q 4 = hslot w 4" by (rule k)
    then show ?thesis by (intro exI [of _ 4]) simp
  next
    case 6
    with pk e1 e3 have "pair_key (blocks_of q) 5 = pair_key (blocks_of w) 5" by simp
    then have "hslot q 5 = hslot w 5" by (rule k)
    then show ?thesis by (intro exI [of _ 5]) simp
  next
    case 7
    with pk e1 e4 have "pair_key (blocks_of q) 6 = pair_key (blocks_of w) 6" by simp
    then have "hslot q 6 = hslot w 6" by (rule k)
    then show ?thesis by (intro exI [of _ 6]) simp
  next
    case 8
    with pk e2 e3 have "pair_key (blocks_of q) 7 = pair_key (blocks_of w) 7" by simp
    then have "hslot q 7 = hslot w 7" by (rule k)
    then show ?thesis by (intro exI [of _ 7]) simp
  next
    case 9
    with pk e2 e4 have "pair_key (blocks_of q) 8 = pair_key (blocks_of w) 8" by simp
    then have "hslot q 8 = hslot w 8" by (rule k)
    then show ?thesis by (intro exI [of _ 8]) simp
  next
    case 10
    with pk e3 e4 have "pair_key (blocks_of q) 9 = pair_key (blocks_of w) 9" by simp
    then have "hslot q 9 = hslot w 9" by (rule k)
    then show ?thesis by (intro exI [of _ 9]) simp
  qed
qed

lemma scan_a_hit:
  assumes "wid0 \<in> set ids" and "hamming_packed15 qcode (cds (nat wid0)) \<le> k"
    and "visited (nat wid0) \<noteq> g"
  shows "fst (scan_a cds qcode k g ids visited)"
  using assms(1,3)
proof (induction ids arbitrary: visited)
  case Nil
  then show ?case by simp
next
  case (Cons wid ids)
  show ?case
  proof (cases "nat wid = nat wid0")
    case True
    with Cons.prems assms(2) show ?thesis by simp
  next
    case False
    then have in_ids: "wid0 \<in> set ids" using Cons.prems(1) by auto
    show ?thesis
    proof (cases "visited (nat wid) = g")
      case True
      then have "scan_a cds qcode k g (wid # ids) visited = scan_a cds qcode k g ids visited"
        by simp
      then show ?thesis using Cons.IH [of visited, OF in_ids Cons.prems(2)] by (simp only:)
    next
      case nv: False
      show ?thesis
      proof (cases "hamming_packed15 qcode (cds (nat wid)) \<le> k")
        case True
        then show ?thesis using nv by simp
      next
        case miss: False
        have e: "scan_a cds qcode k g (wid # ids) visited
            = scan_a cds qcode k g ids (visited(nat wid := g))"
          using nv miss by simp
        have "(visited(nat wid := g)) (nat wid0) \<noteq> g"
          using False Cons.prems(2) by simp
        from Cons.IH [of "visited(nat wid := g)", OF in_ids this] show ?thesis by (simp only: e)
      qed
    qed
  qed
qed

lemma scan_a_keeps:
  assumes "\<not> fst (scan_a cds qcode k g ids visited)"
    and "hamming_packed15 qcode (cds j) \<le> k" and "visited j \<noteq> g"
  shows "snd (scan_a cds qcode k g ids visited) j \<noteq> g"
  using assms(1,3)
proof (induction ids arbitrary: visited)
  case Nil
  then show ?case by simp
next
  case (Cons wid ids)
  show ?case
  proof (cases "visited (nat wid) = g")
    case True
    then have e: "scan_a cds qcode k g (wid # ids) visited = scan_a cds qcode k g ids visited"
      by simp
    from Cons.prems(1) have "\<not> fst (scan_a cds qcode k g ids visited)" unfolding e .
    from Cons.IH [of visited, OF this Cons.prems(2)] show ?thesis unfolding e .
  next
    case False
    have miss: "\<not> hamming_packed15 qcode (cds (nat wid)) \<le> k"
      using Cons.prems(1) False by (auto split: if_splits)
    have e: "scan_a cds qcode k g (wid # ids) visited
        = scan_a cds qcode k g ids (visited(nat wid := g))"
      using False miss by simp
    from Cons.prems(1) have rest: "\<not> fst (scan_a cds qcode k g ids (visited(nat wid := g)))"
      unfolding e .
    from miss assms(2) have "nat wid \<noteq> j" by auto
    then have "(visited(nat wid := g)) j \<noteq> g" using Cons.prems(2) by simp
    from Cons.IH [of "visited(nat wid := g)", OF rest this] show ?thesis unfolding e .
  qed
qed

lemma phase_a_hit:
  assumes "p0 \<in> set ps" and "wid0 \<in> set (posting_a idx (pairs ! p0))"
    and "hamming_packed15 qcode (codes idx (nat wid0)) \<le> k" and "visited (nat wid0) \<noteq> g"
  shows "fst (phase_a idx pairs qcode k g ps visited)"
  using assms(1,4)
proof (induction ps arbitrary: visited)
  case Nil
  then show ?case by simp
next
  case (Cons p ps)
  obtain hit v' where s: "scan_a (codes idx) qcode k g (posting_a idx (pairs ! p)) visited = (hit, v')"
    by (cases "scan_a (codes idx) qcode k g (posting_a idx (pairs ! p)) visited")
  show ?case
  proof (cases "p = p0")
    case True
    have ne: "pp_len (pairs ! p) \<noteq> 0"
      using assms(2) True by (auto simp add: posting_a_def)
    have "fst (scan_a (codes idx) qcode k g (posting_a idx (pairs ! p)) visited)"
      unfolding True
      by (rule scan_a_hit, rule assms(2), rule assms(3), rule Cons.prems(2))
    then show ?thesis using ne by (simp add: s)
  next
    case False
    then have in_ps: "p0 \<in> set ps" using Cons.prems(1) by simp
    show ?thesis
    proof (cases "pp_len (pairs ! p) = 0")
      case True
      then show ?thesis using Cons.IH [of visited, OF in_ps Cons.prems(2)] by simp
    next
      case ne: False
      show ?thesis
      proof (cases hit)
        case True
        then show ?thesis using ne by (simp add: s)
      next
        case hf: False
        then have "\<not> fst (scan_a (codes idx) qcode k g (posting_a idx (pairs ! p)) visited)"
          by (simp add: s)
        then have "snd (scan_a (codes idx) qcode k g (posting_a idx (pairs ! p)) visited) (nat wid0) \<noteq> g"
          by (rule scan_a_keeps) (rule assms(3), rule Cons.prems(2))
        then have "v' (nat wid0) \<noteq> g"
          by (simp add: s)
        from Cons.IH [of v', OF in_ps this] show ?thesis using ne hf by (simp add: s)
      qed
    qed
  qed
qed

lemma word_less_succ: "(x::u32) + 1 \<noteq> 0 \<Longrightarrow> y \<le> x \<Longrightarrow> y \<noteq> x + 1"
proof
  assume a: "x + 1 \<noteq> 0" and b: "y \<le> x" and c: "y = x + 1"
  from a have "1 + x \<noteq> 0" by (simp add: add.commute)
  then have "unat (1 + x) = Suc (unat x)" by (rule unatSuc)
  then have "unat y = Suc (unat x)" by (simp add: c add.commute)
  moreover from b have "unat y \<le> unat x" by (simp add: word_le_nat_alt)
  ultimately show False by simp
qed

lemma search_phase_a_aux:
  assumes len: "length q = 15" and st: "marks_behind st" and cnt: "0 < keyword_count idx"
    and p0: "p0 < 10" and wid0: "wid0 \<in> set (posting_a idx (query_pairs idx q ! p0))"
    and h: "hamming_packed15 (pack_keyword q) (codes idx (nat wid0)) \<le> k"
  shows "fst (casefilter_search idx q k st) = 1"
proof -
  define st1 where "st1 = (if keyword_count idx > visited_cap st
                   then \<lparr> visited_buf = Some (\<lambda>_. 0), visited_cap = keyword_count idx, gen = 1 \<rparr>
                   else st)"
  have "\<exists>buf. visited_buf st1 = Some buf \<and> (\<forall>i. buf i \<le> gen st1)"
  proof (cases "keyword_count idx > visited_cap st")
    case True
    then show ?thesis by (simp add: st1_def)
  next
    case False
    with cnt have "\<not> visited_cap st \<le> 0" by simp
    with st False show ?thesis by (cases "visited_buf st") (simp_all add: st1_def marks_behind_def)
  qed
  then obtain buf where buf: "visited_buf st1 = Some buf" and mk: "\<And>i. buf i \<le> gen st1" by blast
  define g2 where "g2 = (if gen st1 + 1 = 0 then 1 else gen st1 + 1)"
  define v1 where "v1 = (if gen st1 + 1 = 0 then (\<lambda>_. 0) else buf)"
  define ra where "ra = phase_a idx (query_pairs idx q) (pack_keyword q) k g2
      (sort_order (query_pairs idx q)) v1"
  have fresh: "v1 j \<noteq> g2" for j
  proof (cases "gen st1 + 1 = 0")
    case True
    then show ?thesis by (simp add: v1_def g2_def)
  next
    case False
    then show ?thesis using word_less_succ [OF False mk [of j]] by (simp add: v1_def g2_def)
  qed
  have "p0 \<in> set (sort_order (query_pairs idx q))" using p0 by (simp add: sort_order_props(2))
  then have "fst ra" unfolding ra_def by (rule phase_a_hit [OF _ wid0 h fresh])
  moreover have "fst (casefilter_search idx q k st) = (if fst ra then 1 else
      if fst (phase_b idx q (pack_keyword q) k (g2 + 1) [0..<15] (snd ra)) then 1 else 0)"
    using len buf
    by (simp add: casefilter_search_def KEYWORD_LEN_def Let_def ra_def g2_def v1_def
        flip: st1_def)
  ultimately show ?thesis by simp
qed

lemma phase_a_complete_aux:
  assumes v: "list_all valid_word ws" and n: "length ws \<le> 2 ^ 20" and q: "valid_word q"
    and w: "w \<in> set ws" and h: "hamming q w \<le> 3" and st: "marks_behind st"
  shows "fst (casefilter_search (build_index ws) q 3 st) = 1"
proof -
  from w obtain i where i: "i < length ws" "ws ! i = w" by (auto simp add: in_set_conv_nth)
  have vw: "valid_word w" using v w by (simp add: list_all_iff)
  have lq: "length q = 15" and lw: "length w = 15" using q vw by (simp_all add: valid_word_def)
  from pigeonhole_pair [OF lq lw h] obtain p where p: "p < 10" "hslot q p = hslot w p" by blast
  have "(hslot w p, int i) \<in> set (hpostings (\<lambda>i. ws ! i) (length ws))"
    using i p(1) by (auto simp add: hpostings_member)
  then have "int i \<in> set (slot_payload (hpostings (\<lambda>i. ws ! i) (length ws)) (hslot q p))"
    unfolding p(2) by (rule slot_payload_member)
  then have m: "int i \<in> set (posting_a (build_index ws) (query_pairs (build_index ws) q ! p))"
    by (simp only: posting_a_built [OF v n q p(1)])
  have "hamming_packed15 (pack_keyword q) (codes (build_index ws) (nat (int i))) = int (hamming q w)"
    using build_index_words(2) [OF i(1)] by (simp add: i(2) hamming_packed15_words [OF q vw])
  then have hh: "hamming_packed15 (pack_keyword q) (codes (build_index ws) (nat (int i))) \<le> 3"
    using h by simp
  have cnt: "0 < keyword_count (build_index ws)"
    using i(1) by (auto simp add: build_index_words(1))
  show ?thesis by (rule search_phase_a_aux [OF lq st cnt p(1) m hh])
qed

text \<open>
  C2.  Soundness of search: for an index built from at most \<open>2^20\<close> words of length 15
  over \<open>{A..J}\<close> and a query of that form, in any state of the visited set, a result of
  1 means that some dictionary word is within Levenshtein distance 3 of the query.
\<close>

theorem search_sound:
  assumes "list_all valid_word ws" and "length ws \<le> 2 ^ 20" and "valid_word q"
    and "fst (casefilter_search (build_index ws) q 3 st) = 1"
  shows "\<exists>w \<in> set ws. levenshtein q w \<le> 3"
  using assms by (rule search_sound_aux)

theorem search_sound_witness:
  "list_all valid_word [''ABCDEFGHIJABCDE''] \<and> length [''ABCDEFGHIJABCDE''] \<le> 2 ^ 20
   \<and> valid_word ''ABCJEFGHIJABCJE''
   \<and> fst (casefilter_search (build_index [''ABCDEFGHIJABCDE'']) ''ABCJEFGHIJABCJE'' 3 initial_state) = 1
   \<and> (\<exists>w \<in> set [''ABCDEFGHIJABCDE'']. levenshtein ''ABCJEFGHIJABCJE'' w \<le> 3)"
proof -
  have v: "list_all valid_word [''ABCDEFGHIJABCDE'']" by (simp add: valid_word_def valid_sym_def)
  have l: "length [''ABCDEFGHIJABCDE''] \<le> 2 ^ 20" by simp
  have q: "valid_word ''ABCJEFGHIJABCJE''" by (simp add: valid_word_def valid_sym_def)
  have m: "''ABCDEFGHIJABCDE'' \<in> set [''ABCDEFGHIJABCDE'']" by simp
  have h: "hamming ''ABCJEFGHIJABCJE'' ''ABCDEFGHIJABCDE'' \<le> 3" by (simp add: hamming_def)
  have s: "marks_behind initial_state" by (simp add: marks_behind_def initial_state_def)
  have r: "fst (casefilter_search (build_index [''ABCDEFGHIJABCDE'']) ''ABCJEFGHIJABCJE'' 3 initial_state) = 1"
    by (rule phase_a_complete_aux [OF v l q m h s])
  show ?thesis using v l q r search_sound [OF v l q r] by blast
qed

section \<open>Serialization\<close>

subsection \<open>Byte images\<close>

lemma word32_of_le32 [simp]: "word32_of (le32 w) = w"
proof (rule bit_eqI)
  fix k
  assume "possible_bit TYPE(u32) k"
  then have k: "k < 32" by simp
  consider "k < 8" | "8 \<le> k" "k < 16" | "16 \<le> k" "k < 24" | "24 \<le> k" by linarith
  then show "bit (word32_of (le32 w)) k = bit w k"
    using k
    by cases (auto simp add: word32_of_def le32_def bit_or_iff bit_push_bit_iff bit_ucast_iff
        bit_drop_bit_eq)
qed

lemma word16_of_le16 [simp]: "word16_of (le16 w) = w"
proof (rule bit_eqI)
  fix k
  assume "possible_bit TYPE(16 word) k"
  then have k: "k < 16" by simp
  consider "k < 8" | "8 \<le> k" by linarith
  then show "bit (word16_of (le16 w)) k = bit w k"
    using k
    by cases (auto simp add: word16_of_def le16_def bit_or_iff bit_push_bit_iff bit_ucast_iff
        bit_drop_bit_eq)
qed

lemma triple_word_bytes [simp]: "triple_word (triple_bytes v) = v AND 0xFFFFFF"
proof -
  have m: "(0xFFFFFF :: u32) = mask 24" "(0xFF :: u32) = mask 8" by (simp_all add: mask_eq_exp_minus_1)
  show ?thesis
  proof (rule bit_eqI)
    fix k
    assume "possible_bit TYPE(u32) k"
    then have k: "k < 32" by simp
    consider "k < 8" | "8 \<le> k" "k < 16" | "16 \<le> k" "k < 24" | "24 \<le> k" by linarith
    then show "bit (triple_word (triple_bytes v)) k = bit (v AND 0xFFFFFF) k"
      using k unfolding triple_word_def triple_bytes_def m
      by cases (auto simp add: bit_or_iff bit_and_iff bit_mask_iff bit_push_bit_iff
          bit_ucast_iff bit_drop_bit_eq)
  qed
qed

lemma length_le [simp]: "length (le32 w) = 4" "length (le16 v) = 2" "length (triple_bytes x) = 3"
  "length (write_int i) = 4"
  by (simp_all add: le32_def le16_def triple_bytes_def write_int_def)

lemma ucast_narrow_count:
  assumes "(c :: u32) \<le> 0xFFFF"
  shows "ucast (ucast c :: 16 word) = c"
proof (rule bit_eqI)
  fix k
  have "unat c < 2 ^ 16" using assms by (simp add: word_le_nat_alt)
  then have "take_bit 16 (unat c) = unat c" by (simp add: take_bit_nat_eq_self)
  then have "bit (unat c) k \<Longrightarrow> k < 16" by (metis bit_take_bit_iff)
  then have "bit c k \<Longrightarrow> k < 16" by (simp add: bit_unsigned_iff)
  then show "bit (ucast (ucast c :: 16 word) :: u32) k = bit c k"
    by (auto simp add: bit_ucast_iff dest: bit_imp_le_length)
qed

lemma sint_word_of_int_small:
  assumes "- (2 ^ 31) \<le> x" and "x < 2 ^ 31"
  shows "sint (word_of_int x :: u32) = x"
proof -
  have "sint (word_of_int x :: u32) = signed_take_bit 31 x"
    by (simp add: sint_uint uint_word_of_int_eq signed_take_bit_take_bit)
  also have "\<dots> = x" using assms by (rule signed_take_bit_int_eq_self)
  finally show ?thesis .
qed

lemma char_of_byte_of_char [simp]: "char_of_byte (byte_of_char c) = c"
proof -
  have "(of_char c :: u8) = of_nat (of_char c)" by (simp only: of_nat_of_char)
  then have "unat (of_char c :: u8) = (of_char c :: nat) mod 256" by (simp only: unat_of_nat) simp
  then show ?thesis by (simp add: char_of_byte_def byte_of_char_def)
qed

subsection \<open>Readers on written streams\<close>

lemma rbind_Some: "p s = Some (x, r) \<Longrightarrow> rbind p f s = f x r"
  by (simp add: rbind_def)

lemma rbind_None: "p s = None \<Longrightarrow> rbind p f s = None"
  by (simp add: rbind_def)

lemma fread_bytes_append: "length a = n \<Longrightarrow> fread_bytes n (a @ r) = Some (a, r)"
  by (simp add: fread_bytes_def)

lemma read_int_write:
  assumes "- (2 ^ 31) \<le> x" and "x < 2 ^ 31"
  shows "read_int (write_int x @ r) = Some (x, r)"
proof -
  have "fread_bytes 4 (write_int x @ r) = Some (write_int x, r)"
    by (rule fread_bytes_append) simp
  then show ?thesis
    using sint_word_of_int_small [OF assms]
    by (simp add: read_int_def rbind_def rreturn_def write_int_def)
qed

lemma read_byte_Cons: "read_byte (b # r) = Some (b, r)"
  by (simp add: read_byte_def rbind_def fread_bytes_def rreturn_def)

lemma take_drop_concat_chunk:
  assumes "\<forall>x \<in> set xs. length x = k" and "i < length xs"
  shows "take k (drop (i * k) (concat xs @ r)) = xs ! i"
  using assms
proof (induction xs arbitrary: i)
  case Nil
  then show ?case by simp
next
  case (Cons x xs)
  show ?case
  proof (cases i)
    case 0
    then show ?thesis using Cons.prems by simp
  next
    case (Suc j)
    have "drop (i * k) (concat (x # xs) @ r) = drop (j * k) (concat xs @ r)"
      using Cons.prems Suc by simp
    then show ?thesis using Cons.IH [of j] Cons.prems Suc by simp
  qed
qed

lemma length_concat_chunks:
  "\<forall>x \<in> set xs. length x = k \<Longrightarrow> length (concat xs) = k * length xs"
  by (induction xs) simp_all

lemma items_of_concat:
  assumes "\<forall>x \<in> set xs. length x = k"
  shows "items_of k (length xs) (concat xs) = xs"
proof (rule nth_equalityI)
  show "length (items_of k (length xs) (concat xs)) = length xs" by (simp add: items_of_def)
  fix i
  assume "i < length (items_of k (length xs) (concat xs))"
  then have i: "i < length xs" by (simp add: items_of_def)
  show "items_of k (length xs) (concat xs) ! i = xs ! i"
    using take_drop_concat_chunk [OF assms i, of "[]"] i by (simp add: items_of_def)
qed

lemma read_counts_written:
  assumes "cb = 16 \<longrightarrow> (\<forall>i < slots. counts i \<le> 0xFFFF)"
  shows "read_counts cb (int slots) (counts_bytes cb counts slots @ r)
           = Some ((\<lambda>i. if i < slots then counts i else 0), r)"
proof (cases "cb = 16")
  case True
  define xs where "xs = map (\<lambda>i. le16 (ucast (counts i))) [0..<slots]"
  have ch: "\<forall>x \<in> set xs. length x = 2" by (auto simp add: xs_def)
  have len: "length xs = slots" by (simp add: xs_def)
  have cbs: "counts_bytes cb counts slots = concat xs" using True by (simp add: counts_bytes_def xs_def)
  have "length (concat xs) = 2 * slots" using length_concat_chunks [OF ch] len by simp
  then have fr: "fread_items 2 (int slots) (concat xs @ r) = Some (concat xs, r)"
    by (simp add: fread_items_def fread_bytes_append)
  have it: "items_of 2 slots (concat xs) = xs" using items_of_concat [OF ch] len by simp
  have "array_of (map (\<lambda>b. ucast (word16_of b)) xs) = (\<lambda>i. if i < slots then counts i else 0)"
  proof
    fix i
    show "array_of (map (\<lambda>b. ucast (word16_of b)) xs) i = (if i < slots then counts i else 0)"
      using assms True by (simp add: array_of_def xs_def ucast_narrow_count)
  qed
  then show ?thesis
    unfolding cbs using True by (simp add: read_counts_def rbind_def fr rreturn_def it)
next
  case False
  define xs where "xs = map (\<lambda>i. le32 (counts i)) [0..<slots]"
  have ch: "\<forall>x \<in> set xs. length x = 4" by (auto simp add: xs_def)
  have len: "length xs = slots" by (simp add: xs_def)
  have cbs: "counts_bytes cb counts slots = concat xs" using False by (simp add: counts_bytes_def xs_def)
  have "length (concat xs) = 4 * slots" using length_concat_chunks [OF ch] len by simp
  then have fr: "fread_items 4 (int slots) (concat xs @ r) = Some (concat xs, r)"
    by (simp add: fread_items_def fread_bytes_append)
  have it: "items_of 4 slots (concat xs) = xs" using items_of_concat [OF ch] len by simp
  have "array_of (map word32_of xs) = (\<lambda>i. if i < slots then counts i else 0)"
  proof
    fix i
    show "array_of (map word32_of xs) i = (if i < slots then counts i else 0)"
      by (simp add: array_of_def xs_def)
  qed
  then show ?thesis
    unfolding cbs using False by (simp add: read_counts_def rbind_def fr rreturn_def it)
qed

lemma read_triples_written:
  "read_triples (length vs) (concat (map triple_bytes vs) @ r)
     = Some (map (\<lambda>v. v AND 0xFFFFFF) vs, r)"
proof (induction vs)
  case Nil
  show ?case by (simp add: rreturn_def)
next
  case (Cons v vs)
  have "fread_bytes 3 (triple_bytes v @ concat (map triple_bytes vs) @ r)
          = Some (triple_bytes v, concat (map triple_bytes vs) @ r)"
    by (rule fread_bytes_append) simp
  then show ?case using Cons.IH by (simp add: rbind_Some rreturn_def)
qed

lemma max_count_Suc:
  "max_count counts (Suc n)
     = (if counts n > max_count counts n then counts n else max_count counts n)"
  by (simp add: max_count_def)

lemma max_count_bound: "i < slots \<Longrightarrow> counts i \<le> max_count counts slots"
proof (induction slots)
  case 0
  then show ?case by simp
next
  case (Suc n)
  show ?case
  proof (cases "i = n")
    case True
    then show ?thesis by (simp add: max_count_Suc not_less)
  next
    case False
    then have "counts i \<le> max_count counts n" using Suc by simp
    then show ?thesis by (auto simp add: max_count_Suc)
  qed
qed

lemma count_bits_fit:
  "count_bits_of (max_count counts slots) = 16 \<longrightarrow> (\<forall>i < slots. counts i \<le> 0xFFFF)"
proof (intro impI allI)
  fix i
  assume a: "count_bits_of (max_count counts slots) = 16" and i: "i < slots"
  have "max_count counts slots \<le> 0xFFFF"
    using a by (simp add: count_bits_of_def split: if_splits)
  then show "counts i \<le> 0xFFFF" using max_count_bound [OF i, of counts] by simp
qed

lemma read_keywords_written:
  assumes "\<forall>i<n. length (kw i) = 16"
  shows "read_keywords (int n) (concat (map (\<lambda>i. map byte_of_char (kw i)) [0..<n]) @ r)
           = Some ((\<lambda>i. if i < n then kw i else []), r)"
proof -
  define xs where "xs = map (\<lambda>i. map byte_of_char (kw i)) [0..<n]"
  have ch: "\<forall>x \<in> set xs. length x = 16" using assms by (auto simp add: xs_def)
  have len: "length xs = n" by (simp add: xs_def)
  have "length (concat xs) = 16 * n" using length_concat_chunks [OF ch] len by simp
  then have fr: "fread_items 16 (int n) (concat xs @ r) = Some (concat xs, r)"
    by (simp add: fread_items_def fread_bytes_append)
  have "(\<lambda>i. if i < n then map char_of_byte (take 16 (drop (i * 16) (concat xs))) else [])
          = (\<lambda>i. if i < n then kw i else [])"
  proof
    fix i
    show "(if i < n then map char_of_byte (take 16 (drop (i * 16) (concat xs))) else [])
            = (if i < n then kw i else [])"
    proof (cases "i < n")
      case True
      then have "take 16 (drop (i * 16) (concat xs @ [])) = xs ! i"
        using take_drop_concat_chunk [OF ch, of i "[]"] len by simp
      then show ?thesis using True by (simp add: xs_def comp_def)
    next
      case False
      then show ?thesis by simp
    qed
  qed
  then show ?thesis
    unfolding read_keywords_def xs_def [symmetric] by (simp add: rbind_def fr rreturn_def)
qed

lemma prefix_offsets_cong:
  assumes "\<And>i. i < n \<Longrightarrow> c i = c' i"
  shows "prefix_offsets n c = prefix_offsets n c'"
proof
  fix i
  show "prefix_offsets n c i = prefix_offsets n c' i"
    using assms by (simp add: prefix_offsets_eq)
qed

subsection \<open>Reading back a written index\<close>

lemma read_hcounts_written:
  assumes "0 \<le> ks" and "ks < 2 ^ 31" and "0 \<le> pc" and "pc < 2 ^ 31"
    and cb: "cb = 16 \<longrightarrow> (\<forall>i < nat (ks * pc). counts i \<le> 0xFFFF)"
  shows "read_hcounts (write_int ks @ write_int pc @ [cb]
            @ counts_bytes cb counts (nat (ks * pc)) @ r)
          = Some ((ks, pc, (\<lambda>i. if i < nat (ks * pc) then counts i else 0)), r)"
proof -
  have nn: "int (nat (ks * pc)) = ks * pc" using assms by simp
  have a: "read_int (write_int ks @ s) = Some (ks, s)" for s
    by (rule read_int_write) (use assms in simp_all)
  have b: "read_int (write_int pc @ s) = Some (pc, s)" for s
    by (rule read_int_write) (use assms in simp_all)
  have c: "read_counts cb (ks * pc) (counts_bytes cb counts (nat (ks * pc)) @ r)
      = Some ((\<lambda>i. if i < nat (ks * pc) then counts i else 0), r)"
    using read_counts_written [OF cb, of r] by (simp only: nn)
  show ?thesis
    unfolding read_hcounts_def
    by (simp add: rbind_def a b read_byte_Cons c rreturn_def)
qed

lemma read_dcounts_written:
  assumes "0 \<le> ks" and "ks < 2 ^ 31"
    and cb: "cb = 16 \<longrightarrow> (\<forall>i < nat ks. counts i \<le> 0xFFFF)"
  shows "read_dcounts (write_int ks @ [cb] @ counts_bytes cb counts (nat ks) @ r)
          = Some ((ks, (\<lambda>i. if i < nat ks then counts i else 0)), r)"
proof -
  have nn: "int (nat ks) = ks" using assms by simp
  have a: "read_int (write_int ks @ s) = Some (ks, s)" for s
    by (rule read_int_write) (use assms in simp_all)
  have c: "read_counts cb ks (counts_bytes cb counts (nat ks) @ r)
      = Some ((\<lambda>i. if i < nat ks then counts i else 0), r)"
    using read_counts_written [OF cb, of r] by (simp only: nn)
  show ?thesis
    unfolding read_dcounts_def
    by (simp add: rbind_def a read_byte_Cons c rreturn_def)
qed

lemma read_hindex_written:
  fixes h :: HIndex
  defines "slots \<equiv> nat (h_key_space h * h_pair_count h)"
  assumes ks: "0 \<le> h_key_space h" "h_key_space h < 2 ^ 31"
    and pc: "0 \<le> h_pair_count h" "h_pair_count h < 2 ^ 31"
    and off: "h_offsets h = prefix_offsets slots (h_counts h)"
    and tot: "0 \<le> h_offsets h slots" "h_offsets h slots < 2 ^ 31"
  shows "read_hindex (serialize_hindex h @ r)
          = Some (\<lparr> h_key_space = h_key_space h, h_pair_count = h_pair_count h,
                     h_offsets = h_offsets h,
                     h_counts = (\<lambda>i. if i < slots then h_counts h i else 0),
                     h_ids = map (\<lambda>i. trunc24_int (h_ids h ! i)) [0..<nat (h_offsets h slots)] \<rparr>, r)"
proof -
  define cb where "cb = count_bits_of (max_count (h_counts h) slots)"
  define counts' where "counts' = (\<lambda>i. if i < slots then h_counts h i else 0)"
  define total where "total = h_offsets h slots"
  define vs :: "u32 list" where "vs = map (\<lambda>i. word_of_int (h_ids h ! i)) [0..<nat total]"
  define tail where "tail = write_int total @ concat (map triple_bytes vs) @ r"
  have fit: "cb = 16 \<longrightarrow> (\<forall>i < nat (h_key_space h * h_pair_count h). h_counts h i \<le> 0xFFFF)"
    unfolding cb_def slots_def [symmetric] by (rule count_bits_fit)
  have ser: "serialize_hindex h @ r
      = write_int (h_key_space h) @ write_int (h_pair_count h) @ [cb]
        @ counts_bytes cb (h_counts h) (nat (h_key_space h * h_pair_count h)) @ tail"
    by (simp add: serialize_hindex_def Let_def cb_def slots_def total_def vs_def tail_def
        map_concat comp_def)
  have hc: "read_hcounts (serialize_hindex h @ r)
      = Some ((h_key_space h, h_pair_count h, counts'), tail)"
    unfolding ser counts'_def slots_def by (rule read_hcounts_written [OF ks pc fit])
  have offs: "prefix_offsets slots counts' = h_offsets h"
    unfolding off by (rule prefix_offsets_cong) (simp add: counts'_def)
  have ri: "read_int tail = Some (total, concat (map triple_bytes vs) @ r)"
    unfolding tail_def by (rule read_int_write) (use tot in \<open>simp_all add: total_def\<close>)
  have lv: "length vs = nat total" by (simp add: vs_def)
  have rt: "read_triples (nat total) (concat (map triple_bytes vs) @ r)
      = Some (map (\<lambda>v. v AND 0xFFFFFF) vs, r)"
    using read_triples_written [of vs r] by (simp only: lv)
  have ids: "map (sint \<circ> (\<lambda>v. v AND 0xFFFFFF)) vs
      = map (\<lambda>i. trunc24_int (h_ids h ! i)) [0..<nat total]"
    by (simp add: vs_def trunc24_int_def comp_def)
  have "read_hindex (serialize_hindex h @ r)
          = Some (\<lparr> h_key_space = h_key_space h, h_pair_count = h_pair_count h,
                     h_offsets = h_offsets h, h_counts = counts',
                     h_ids = map (\<lambda>i. trunc24_int (h_ids h ! i)) [0..<nat total] \<rparr>, r)"
    unfolding read_hindex_def
    by (simp add: rbind_def hc Let_def slots_def [symmetric] offs total_def [symmetric]
        ri rt rreturn_def ids)
  then show ?thesis unfolding counts'_def total_def .
qed

lemma read_dindex_written:
  fixes d :: DelIndex
  defines "slots \<equiv> nat (d_key_space d)"
  assumes ks: "0 \<le> d_key_space d" "d_key_space d < 2 ^ 31"
    and off: "d_offsets d = prefix_offsets slots (d_counts d)"
    and tot: "0 \<le> d_offsets d slots" "d_offsets d slots < 2 ^ 31"
  shows "read_dindex (serialize_dindex d @ r)
          = Some (\<lparr> d_key_space = d_key_space d, d_offsets = d_offsets d,
                     d_counts = (\<lambda>i. if i < slots then d_counts d i else 0),
                     d_idpos = map (\<lambda>i. d_idpos d ! i AND 0xFFFFFF) [0..<nat (d_offsets d slots)] \<rparr>, r)"
proof -
  define cb where "cb = count_bits_of (max_count (d_counts d) slots)"
  define counts' where "counts' = (\<lambda>i. if i < slots then d_counts d i else 0)"
  define total where "total = d_offsets d slots"
  define vs :: "u32 list" where "vs = map (\<lambda>i. d_idpos d ! i AND 0xFFFFFF) [0..<nat total]"
  define tail where "tail = write_int total @ concat (map triple_bytes vs) @ r"
  have fit: "cb = 16 \<longrightarrow> (\<forall>i < nat (d_key_space d). d_counts d i \<le> 0xFFFF)"
    unfolding cb_def slots_def [symmetric] by (rule count_bits_fit)
  have ser: "serialize_dindex d @ r
      = write_int (d_key_space d) @ [cb]
        @ counts_bytes cb (d_counts d) (nat (d_key_space d)) @ tail"
    by (simp add: serialize_dindex_def Let_def cb_def slots_def total_def vs_def tail_def
        map_concat comp_def)
  have hc: "read_dcounts (serialize_dindex d @ r) = Some ((d_key_space d, counts'), tail)"
    unfolding ser counts'_def slots_def by (rule read_dcounts_written [OF ks fit])
  have offs: "prefix_offsets slots counts' = d_offsets d"
    unfolding off by (rule prefix_offsets_cong) (simp add: counts'_def)
  have ri: "read_int tail = Some (total, concat (map triple_bytes vs) @ r)"
    unfolding tail_def by (rule read_int_write) (use tot in \<open>simp_all add: total_def\<close>)
  have lv: "length vs = nat total" by (simp add: vs_def)
  have rt: "read_triples (nat total) (concat (map triple_bytes vs) @ r)
      = Some (map (\<lambda>v. v AND 0xFFFFFF) vs, r)"
    using read_triples_written [of vs r] by (simp only: lv)
  have ids: "map (\<lambda>v. v AND 0xFFFFFF) vs = vs"
    by (simp add: vs_def comp_def and.assoc)
  have "read_dindex (serialize_dindex d @ r)
          = Some (\<lparr> d_key_space = d_key_space d, d_offsets = d_offsets d,
                     d_counts = counts', d_idpos = vs \<rparr>, r)"
    unfolding read_dindex_def
    by (simp add: rbind_def hc Let_def slots_def [symmetric] offs total_def [symmetric]
        ri rt rreturn_def ids)
  then show ?thesis unfolding counts'_def vs_def total_def .
qed

lemma read_header_written:
  assumes "0 \<le> keyword_count idx" and "keyword_count idx < 2 ^ 31"
    and "\<forall>i<nat (keyword_count idx). length (keywords_arr idx i) = 16"
  shows "read_header (write_int (keyword_count idx)
            @ concat (map (\<lambda>i. map byte_of_char (keywords_arr idx i)) [0..<nat (keyword_count idx)])
            @ r)
          = Some ((keyword_count idx,
                   (\<lambda>i. if i < nat (keyword_count idx) then keywords_arr idx i else [])), r)"
proof -
  have nn: "int (nat (keyword_count idx)) = keyword_count idx" using assms by simp
  have a: "read_int (write_int (keyword_count idx) @ s) = Some (keyword_count idx, s)" for s
    by (rule read_int_write) (use assms in simp_all)
  have b: "read_keywords (keyword_count idx)
       (concat (map (\<lambda>i. map byte_of_char (keywords_arr idx i)) [0..<nat (keyword_count idx)]) @ r)
      = Some ((\<lambda>i. if i < nat (keyword_count idx) then keywords_arr idx i else []), r)"
    using read_keywords_written [OF assms(3), of r] by (simp only: nn)
  show ?thesis
    unfolding read_header_def by (simp add: rbind_def a b rreturn_def)
qed

lemma pack_keyword_stored_record:
  "pack_keyword (map (\<lambda>k. w ! k) [0..<KEYWORD_LEN] @ [c]) = pack_keyword w"
proof (rule bit_eqI)
  fix k
  show "bit (pack_keyword (map (\<lambda>k. w ! k) [0..<KEYWORD_LEN] @ [c])) k = bit (pack_keyword w) k"
  proof (cases "k < 60")
    case True
    then have "k div 4 < 15" by simp
    then show ?thesis
      using stored_record_nth [of "k div 4" w c] by (simp add: pack_keyword_bit KEYWORD_LEN_def)
  next
    case False
    then show ?thesis by (simp add: pack_keyword_bit)
  qed
qed

lemma build_index_shape:
  shows "h_key_space (hidx (build_index ws)) = 1000000"
    and "h_pair_count (hidx (build_index ws)) = 10"
    and "h_offsets (hidx (build_index ws))
           = prefix_offsets 10000000 (h_counts (hidx (build_index ws)))"
    and "d_key_space (del7 (build_index ws)) = 10000000"
    and "d_offsets (del7 (build_index ws))
           = prefix_offsets 10000000 (d_counts (del7 (build_index ws)))"
  by (simp_all add: build_index_def casefilter_finalize_def build_dindex_def build_hindex_def
      Let_def CASEFILTER_H_KEY_SPACE_def CASEFILTER_HPAIR_COUNT_def CASEFILTER_DEL_KEY_SPACE_def)

lemma build_index_record:
  assumes "i < length ws"
  shows "keywords_arr (build_index ws) i = map (\<lambda>k. (ws ! i) ! k) [0..<KEYWORD_LEN] @ [CHR 0x00]"
proof -
  have k0: "keyword_count (casefilter_create 1024) = 0" by (simp add: casefilter_create_def)
  note f = insert_all_facts [OF k0, of ws]
  show ?thesis
    using f assms
    by (simp add: build_index_def casefilter_finalize_def build_dindex_def build_hindex_def Let_def)
qed

lemma build_index_totals:
  assumes "list_all valid_word ws" and "length ws \<le> 2 ^ 20"
  shows "h_offsets (hidx (build_index ws)) 10000000 = 10 * int (length ws)"
    and "d_offsets (del7 (build_index ws)) 10000000 = 30 * int (length ws)"
proof -
  have vw: "\<And>i. i < length ws \<Longrightarrow> valid_word (ws ! i)"
    using assms(1) by (simp add: list_all_length)
  have hs: "slot_start (hpostings (\<lambda>i. ws ! i) (length ws)) 10000000 = 10 * length ws"
    using slot_start_total [OF hpostings_slots(1) [of "length ws" "\<lambda>i. ws ! i"]] vw
    by (simp add: hpostings_length)
  have ds: "slot_start (dpostings (\<lambda>i. ws ! i) (length ws)) 10000000 = 30 * length ws"
    using slot_start_total [OF dpostings_slots [of "length ws" "\<lambda>i. ws ! i"]] vw
    by (simp add: dpostings_length)
  show "h_offsets (hidx (build_index ws)) 10000000 = 10 * int (length ws)"
    using build_index_hidx(1) [OF assms, of 10000000] by (simp add: hs)
  show "d_offsets (del7 (build_index ws)) 10000000 = 30 * int (length ws)"
    using build_index_del7(1) [OF assms, of 10000000] by (simp add: ds)
qed

lemma read_index_built:
  assumes v: "list_all valid_word ws" and n: "length ws \<le> 2 ^ 20"
  defines "idx \<equiv> build_index ws"
  shows "read_index (casefilter_serialize idx)
     = Some (\<lparr> keywords_arr = (\<lambda>i. if i < length ws then keywords_arr idx i else []),
                keyword_count = int (length ws), keyword_cap = int (length ws),
                codes = (\<lambda>i. if i < length ws
                          then pack_keyword (if i < length ws then keywords_arr idx i else []) else 0),
                hidx = \<lparr> h_key_space = 1000000, h_pair_count = 10,
                         h_offsets = h_offsets (hidx idx),
                         h_counts = (\<lambda>i. if i < 10000000 then h_counts (hidx idx) i else 0),
                         h_ids = map trunc24_int (h_ids (hidx idx)) \<rparr>,
                del7 = \<lparr> d_key_space = 10000000, d_offsets = d_offsets (del7 idx),
                         d_counts = (\<lambda>i. if i < 10000000 then d_counts (del7 idx) i else 0),
                         d_idpos = map (\<lambda>v. v AND 0xFFFFFF) (d_idpos (del7 idx)) \<rparr> \<rparr>, [])"
proof -
  note sh = build_index_shape [of ws, folded idx_def]
  note tt = build_index_totals [OF v n, folded idx_def]
  have kc: "keyword_count idx = int (length ws)"
    unfolding idx_def by (rule build_index_words(1))
  have n31: "int (length ws) < 2 ^ 31" using n by simp
  have recs: "\<forall>i<nat (keyword_count idx). length (keywords_arr idx i) = 16"
  proof (intro allI impI)
    fix i
    assume "i < nat (keyword_count idx)"
    then have "i < length ws" by (simp add: kc)
    then show "length (keywords_arr idx i) = 16"
      unfolding idx_def by (simp add: build_index_record KEYWORD_LEN_def)
  qed
  have hd: "read_header (write_int (keyword_count idx)
            @ concat (map (\<lambda>i. map byte_of_char (keywords_arr idx i)) [0..<nat (keyword_count idx)])
            @ r)
          = Some ((keyword_count idx,
                   (\<lambda>i. if i < nat (keyword_count idx) then keywords_arr idx i else [])), r)" for r
    by (rule read_header_written [OF _ _ recs]) (use kc n31 in simp_all)
  have hl: "length (h_ids (hidx idx)) = 10 * length ws"
    unfolding idx_def by (rule build_index_hidx(3) [OF v n])
  have dl: "length (d_idpos (del7 idx)) = 30 * length ws"
    unfolding idx_def by (rule build_index_del7(3) [OF v n])
  have "10 * int (length ws) \<le> 10 * 2 ^ 20" "30 * int (length ws) \<le> 30 * 2 ^ 20"
    using n by simp_all
  then have small: "10 * int (length ws) < 2 ^ 31" "30 * int (length ws) < 2 ^ 31" by simp_all
  have rh: "read_hindex (serialize_hindex (hidx idx) @ r)
      = Some (\<lparr> h_key_space = 1000000, h_pair_count = 10, h_offsets = h_offsets (hidx idx),
                 h_counts = (\<lambda>i. if i < 10000000 then h_counts (hidx idx) i else 0),
                 h_ids = map trunc24_int (h_ids (hidx idx)) \<rparr>, r)" for r
  proof -
    have m: "map (\<lambda>i. trunc24_int (h_ids (hidx idx) ! i)) [0..<10 * length ws]
        = map trunc24_int (h_ids (hidx idx))"
      unfolding hl [symmetric] by (rule nth_equalityI) simp_all
    have sl: "nat (h_key_space (hidx idx) * h_pair_count (hidx idx)) = 10000000"
      by (simp add: sh(1,2))
    show ?thesis
      using read_hindex_written [of "hidx idx" r, unfolded sl, OF _ _ _ _ sh(3)] small
      by (simp add: sh(1,2) tt m nat_mult_distrib)
  qed
  have rd: "read_dindex (serialize_dindex (del7 idx) @ r)
      = Some (\<lparr> d_key_space = 10000000, d_offsets = d_offsets (del7 idx),
                 d_counts = (\<lambda>i. if i < 10000000 then d_counts (del7 idx) i else 0),
                 d_idpos = map (\<lambda>v. v AND 0xFFFFFF) (d_idpos (del7 idx)) \<rparr>, r)" for r
  proof -
    have m: "map (\<lambda>i. d_idpos (del7 idx) ! i AND 0xFFFFFF) [0..<30 * length ws]
        = map (\<lambda>v. v AND 0xFFFFFF) (d_idpos (del7 idx))"
      unfolding dl [symmetric] by (rule nth_equalityI) simp_all
    have sl: "nat (d_key_space (del7 idx)) = 10000000"
      by (simp add: sh(4))
    show ?thesis
      using read_dindex_written [of "del7 idx" r, unfolded sl, OF _ _ sh(5)] small
      by (simp add: sh(4) tt m nat_mult_distrib)
  qed
  have "read_index (casefilter_serialize idx)
     = Some (\<lparr> keywords_arr = (\<lambda>i. if i < nat (keyword_count idx) then keywords_arr idx i else []),
                keyword_count = keyword_count idx, keyword_cap = keyword_count idx,
                codes = (\<lambda>i. if i < nat (keyword_count idx)
                          then pack_keyword (if i < nat (keyword_count idx) then keywords_arr idx i else [])
                          else 0),
                hidx = \<lparr> h_key_space = 1000000, h_pair_count = 10,
                         h_offsets = h_offsets (hidx idx),
                         h_counts = (\<lambda>i. if i < 10000000 then h_counts (hidx idx) i else 0),
                         h_ids = map trunc24_int (h_ids (hidx idx)) \<rparr>,
                del7 = \<lparr> d_key_space = 10000000, d_offsets = d_offsets (del7 idx),
                         d_counts = (\<lambda>i. if i < 10000000 then d_counts (del7 idx) i else 0),
                         d_idpos = map (\<lambda>v. v AND 0xFFFFFF) (d_idpos (del7 idx)) \<rparr> \<rparr>, [])"
    unfolding read_index_def casefilter_serialize_def
    using rd [of "[]"]
    by (simp add: rbind_def hd rh rreturn_def)
  then show ?thesis unfolding kc nat_int .
qed

text \<open>
  C3.  Serialization round trip, for an index built from \<open>N \<le> 2^20\<close> words of length 15
  over \<open>{A..J}\<close>: reading back the written stream succeeds and gives an index with the same
  \<open>keyword_count\<close>, the same 16-byte records, the same nibble codes, the same key spaces,
  the same counts on every slot, offsets that are the prefix sums of the counts read and
  equal the original offsets, and payloads equal to the original ones cut to 24 bits.
\<close>

theorem serialize_round_trip:
  assumes "list_all valid_word ws" and "length ws \<le> 2 ^ 20"
  shows "\<exists>idx'. casefilter_deserialize (casefilter_serialize (build_index ws)) = Some idx'
     \<and> keyword_count idx' = keyword_count (build_index ws)
     \<and> (\<forall>i<length ws. keywords_arr idx' i = keywords_arr (build_index ws) i)
     \<and> (\<forall>i<length ws. codes idx' i = codes (build_index ws) i)
     \<and> h_key_space (hidx idx') = h_key_space (hidx (build_index ws))
     \<and> h_pair_count (hidx idx') = h_pair_count (hidx (build_index ws))
     \<and> (\<forall>s<10000000. h_counts (hidx idx') s = h_counts (hidx (build_index ws)) s)
     \<and> h_offsets (hidx idx') = prefix_offsets 10000000 (h_counts (hidx idx'))
     \<and> h_offsets (hidx idx') = h_offsets (hidx (build_index ws))
     \<and> h_ids (hidx idx') = map trunc24_int (h_ids (hidx (build_index ws)))
     \<and> d_key_space (del7 idx') = d_key_space (del7 (build_index ws))
     \<and> (\<forall>s<10000000. d_counts (del7 idx') s = d_counts (del7 (build_index ws)) s)
     \<and> d_offsets (del7 idx') = prefix_offsets 10000000 (d_counts (del7 idx'))
     \<and> d_offsets (del7 idx') = d_offsets (del7 (build_index ws))
     \<and> d_idpos (del7 idx') = map (\<lambda>v. v AND 0xFFFFFF) (d_idpos (del7 (build_index ws)))"
proof -
  note r = read_index_built [OF assms]
  note sh = build_index_shape [of ws]
  have ho: "prefix_offsets 10000000 (\<lambda>i. if i < 10000000 then h_counts (hidx (build_index ws)) i else 0)
      = h_offsets (hidx (build_index ws))"
    unfolding sh(3) by (rule prefix_offsets_cong) simp
  have dof: "prefix_offsets 10000000 (\<lambda>i. if i < 10000000 then d_counts (del7 (build_index ws)) i else 0)
      = d_offsets (del7 (build_index ws))"
    unfolding sh(5) by (rule prefix_offsets_cong) simp
  have cd: "pack_keyword (keywords_arr (build_index ws) i) = codes (build_index ws) i"
    if "i < length ws" for i
    using that by (simp add: build_index_record pack_keyword_stored_record build_index_words(2))
  show ?thesis
    unfolding casefilter_deserialize_def r
    by (simp add: build_index_words(1) sh(1,2,4) ho dof cd)
qed

theorem serialize_round_trip_witness:
  "list_all valid_word [''ABCDEFGHIJABCDE''] \<and> length [''ABCDEFGHIJABCDE''] \<le> 2 ^ 20
   \<and> (\<exists>idx'. casefilter_deserialize (casefilter_serialize (build_index [''ABCDEFGHIJABCDE''])) = Some idx'
        \<and> keyword_count idx' = keyword_count (build_index [''ABCDEFGHIJABCDE''])
        \<and> h_ids (hidx idx') = map trunc24_int (h_ids (hidx (build_index [''ABCDEFGHIJABCDE''])))
        \<and> d_idpos (del7 idx')
            = map (\<lambda>v. v AND 0xFFFFFF) (d_idpos (del7 (build_index [''ABCDEFGHIJABCDE'']))))"
proof -
  have v: "list_all valid_word [''ABCDEFGHIJABCDE'']" by (simp add: valid_word_def valid_sym_def)
  have l: "length [''ABCDEFGHIJABCDE''] \<le> 2 ^ 20" by simp
  show ?thesis using v l serialize_round_trip [OF v l] by blast
qed

subsection \<open>Truncated streams\<close>

























section \<open>The generation counter across searches\<close>

subsection \<open>One search from a state that holds a buffer\<close>

lemma search_warm:
  assumes "length q = 15" and "visited_buf st = Some b" and "keyword_count idx \<le> visited_cap st"
    and "gen st + 1 \<noteq> 0"
  shows "casefilter_search idx q k st =
     (let ra = phase_a idx (query_pairs idx q) (pack_keyword q) k (gen st + 1)
                 (sort_order (query_pairs idx q)) b
      in if fst ra
         then (1, \<lparr> visited_buf = Some (snd ra), visited_cap = visited_cap st, gen = gen st + 1 \<rparr>)
         else (let rb = phase_b idx q (pack_keyword q) k (gen st + 1 + 1) [0..<KEYWORD_LEN] (snd ra)
               in (if fst rb then 1 else 0,
                   \<lparr> visited_buf = Some (snd rb), visited_cap = visited_cap st,
                     gen = gen st + 1 + 1 \<rparr>)))"
  using assms by (simp add: casefilter_search_def Let_def KEYWORD_LEN_def)

lemma search_cold:
  assumes "length q = 15" and "visited_cap st < keyword_count idx"
  shows "casefilter_search idx q k st
     = casefilter_search idx q k
         \<lparr> visited_buf = Some (\<lambda>_. 0), visited_cap = keyword_count idx, gen = 1 \<rparr>"
  using assms by (simp add: casefilter_search_def Let_def KEYWORD_LEN_def)

lemma scan_a_skip:
  "\<forall>wid \<in> set ids. visited (nat wid) = g \<Longrightarrow> scan_a cds qcode k g ids visited = (False, visited)"
  by (induction ids) simp_all

lemma phase_a_skip:
  "\<forall>p \<in> set ps. \<forall>wid \<in> set (posting_a idx (pairs ! p)). visited (nat wid) = g
     \<Longrightarrow> phase_a idx pairs qcode k g ps visited = (False, visited)"
  by (induction ps) (simp_all add: scan_a_skip)

lemma scan_a_frame:
  "\<forall>wid \<in> set ids. nat wid \<noteq> j \<Longrightarrow> snd (scan_a cds qcode k g ids visited) j = visited j"
  by (induction ids arbitrary: visited) simp_all

lemma phase_a_frame:
  "\<forall>p \<in> set ps. \<forall>wid \<in> set (posting_a idx (pairs ! p)). nat wid \<noteq> j
     \<Longrightarrow> snd (phase_a idx pairs qcode k g ps visited) j = visited j"
proof (induction ps arbitrary: visited)
  case Nil
  show ?case by simp
next
  case (Cons p ps)
  have f: "snd (scan_a (codes idx) qcode k g (posting_a idx (pairs ! p)) visited) j = visited j"
    by (rule scan_a_frame) (use Cons.prems in simp)
  have ih: "snd (phase_a idx pairs qcode k g ps v) j = v j" for v
    by (rule Cons.IH) (use Cons.prems in simp)
  show ?case
    using f ih
    by (cases "scan_a (codes idx) qcode k g (posting_a idx (pairs ! p)) visited")
      (auto simp add: split: bool.splits)
qed

lemma scan_a_mark:
  "fst (scan_a cds qcode k g ids visited) \<Longrightarrow> \<forall>wid \<in> set ids. nat wid = j
     \<Longrightarrow> snd (scan_a cds qcode k g ids visited) j = g"
  by (induction ids arbitrary: visited) (auto split: if_splits)

lemma phase_a_mark:
  "fst (phase_a idx pairs qcode k g ps visited)
     \<Longrightarrow> \<forall>p \<in> set ps. \<forall>wid \<in> set (posting_a idx (pairs ! p)). nat wid = j
     \<Longrightarrow> snd (phase_a idx pairs qcode k g ps visited) j = g"
proof (induction ps arbitrary: visited)
  case Nil
  then show ?case by simp
next
  case (Cons p ps)
  have all: "\<forall>wid \<in> set (posting_a idx (pairs ! p)). nat wid = j"
    and rest: "\<forall>p \<in> set ps. \<forall>wid \<in> set (posting_a idx (pairs ! p)). nat wid = j"
    using Cons.prems(2) by simp_all
  show ?case
  proof (cases "pp_len (pairs ! p) = 0")
    case True
    then show ?thesis using Cons.IH [OF _ rest] Cons.prems(1) by simp
  next
    case False
    obtain r v where s: "scan_a (codes idx) qcode k g (posting_a idx (pairs ! p)) visited = (r, v)"
      by (cases "scan_a (codes idx) qcode k g (posting_a idx (pairs ! p)) visited")
    show ?thesis
    proof (cases r)
      case True
      then have "v j = g" using scan_a_mark [OF _ all, of "codes idx" qcode k g visited] s by simp
      then show ?thesis using False s True by simp
    next
      case r: False
      then have "fst (phase_a idx pairs qcode k g ps v)" using Cons.prems(1) False s by simp
      then show ?thesis using Cons.IH [OF _ rest] False s r by simp
    qed
  qed
qed

lemma phase_b_empty:
  "\<forall>pos \<in> set poss.
       posting_d idx (nat (sint (pack_key7 (take 7 (qdel_string query pos))))) = []
     \<and> posting_d idx (nat (sint (pack_key7 (take 7 (drop 7 (qdel_string query pos)))))) = []
   \<Longrightarrow> phase_b idx query qcode k g poss visited = (False, visited)"
  by (induction poss) (simp_all add: Let_def)

text \<open>A search whose Phase A finds every candidate marked and whose Phase B finds no
  posting returns 0, leaves the buffer as it is and advances the counter by two.\<close>

lemma search_miss_step:
  assumes "length q = 15" and "visited_buf st = Some b" and "keyword_count idx \<le> visited_cap st"
    and "gen st + 1 \<noteq> 0"
    and a: "\<forall>p<10. \<forall>wid \<in> set (posting_a idx (query_pairs idx q ! p)). b (nat wid) = gen st + 1"
    and d: "\<forall>pos<15.
       posting_d idx (nat (sint (pack_key7 (take 7 (qdel_string q pos))))) = []
     \<and> posting_d idx (nat (sint (pack_key7 (take 7 (drop 7 (qdel_string q pos)))))) = []"
  shows "casefilter_search idx q k st = (0, st\<lparr> gen := gen st + 2 \<rparr>)"
proof -
  have pa: "phase_a idx (query_pairs idx q) (pack_keyword q) k (gen st + 1)
      (sort_order (query_pairs idx q)) b = (False, b)"
    by (rule phase_a_skip) (use a in \<open>simp add: sort_order_props\<close>)
  have pb: "phase_b idx q (pack_keyword q) k g [0..<KEYWORD_LEN] b = (False, b)" for g
    by (rule phase_b_empty) (use d in \<open>simp add: KEYWORD_LEN_def\<close>)
  have "st\<lparr> gen := gen st + 2 \<rparr>
      = \<lparr> visited_buf = Some b, visited_cap = visited_cap st, gen = gen st + 1 + 1 \<rparr>"
    using assms(2) by simp
  then show ?thesis
    unfolding search_warm [OF assms(1-4)] by (simp add: pa pb Let_def)
qed

lemma even_word_succ: "even (g :: u32) \<Longrightarrow> g + 1 \<noteq> 0"
proof
  assume "even g" and "g + 1 = 0"
  then have "even (g + 1)" by simp
  then show False using \<open>even g\<close> by simp
qed

lemma search_all_append:
  "search_all idx (xs @ ys) st
     = (fst (search_all idx xs st) @ fst (search_all idx ys (snd (search_all idx xs st))),
        snd (search_all idx ys (snd (search_all idx xs st))))"
  by (induction xs arbitrary: st) (simp_all add: Let_def)

text \<open>Repeating a query that finds no posting at all, from an even counter: every search
  returns 0 and adds two to the counter, which never meets the wrap test of the first
  increment.\<close>

lemma misses_run:
  assumes "length q = 15" and "visited_buf st = Some b" and "keyword_count idx \<le> visited_cap st"
    and "even (gen st)"
    and a: "\<forall>p<10. posting_a idx (query_pairs idx q ! p) = []"
    and d: "\<forall>pos<15.
       posting_d idx (nat (sint (pack_key7 (take 7 (qdel_string q pos))))) = []
     \<and> posting_d idx (nat (sint (pack_key7 (take 7 (drop 7 (qdel_string q pos)))))) = []"
  shows "search_all idx (replicate n q) st
     = (replicate n 0, st\<lparr> gen := gen st + 2 * of_nat n \<rparr>)"
  using assms(2-4)
proof (induction n arbitrary: st)
  case 0
  show ?case by simp
next
  case (Suc n)
  have a': "\<forall>p<10. \<forall>wid \<in> set (posting_a idx (query_pairs idx q ! p)). b (nat wid) = gen st + 1"
    using a by simp
  have step: "casefilter_search idx q 3 st = (0, st\<lparr> gen := gen st + 2 \<rparr>)"
    by (rule search_miss_step [OF assms(1) Suc.prems(1,2) even_word_succ [OF Suc.prems(3)] a' d])
  have ih: "search_all idx (replicate n q) (st\<lparr> gen := gen st + 2 \<rparr>)
      = (replicate n 0, st\<lparr> gen := gen st + 2 \<rparr>\<lparr> gen := gen (st\<lparr> gen := gen st + 2 \<rparr>) + 2 * of_nat n \<rparr>)"
    by (rule Suc.IH) (use Suc.prems in simp_all)
  show ?case
    by (simp add: step ih Let_def algebra_simps)
qed

subsection \<open>Postings of a built index\<close>

lemma posting_a_ids:
  assumes v: "list_all valid_word ws" and n: "length ws \<le> 2 ^ 20" and q: "valid_word q"
    and p: "p < 10"
    and m: "wid \<in> set (posting_a (build_index ws) (query_pairs (build_index ws) q ! p))"
  shows "\<exists>i<length ws. wid = int i \<and> (\<exists>p'<10. hslot (ws ! i) p' = hslot q p)"
proof -
  from m have "wid \<in> set (slot_payload (hpostings (\<lambda>i. ws ! i) (length ws)) (hslot q p))"
    by (simp only: posting_a_built [OF v n q p])
  then obtain x where "x \<in> set (hpostings (\<lambda>i. ws ! i) (length ws))"
    and "fst x = hslot q p" and "snd x = wid"
    by (auto simp add: slot_payload_def)
  then show ?thesis by (auto simp add: hpostings_member)
qed

lemma posting_a_has:
  assumes v: "list_all valid_word ws" and n: "length ws \<le> 2 ^ 20" and q: "valid_word q"
    and p: "p < 10" and i: "i < length ws" and p': "p' < 10"
    and e: "hslot (ws ! i) p' = hslot q p"
  shows "int i \<in> set (posting_a (build_index ws) (query_pairs (build_index ws) q ! p))"
proof -
  have "(hslot q p, int i) \<in> set (hpostings (\<lambda>i. ws ! i) (length ws))"
    unfolding hpostings_member using i p' e by metis
  then show ?thesis
    unfolding posting_a_built [OF v n q p] by (rule slot_payload_member)
qed

lemma posting_d_none:
  assumes v: "list_all valid_word ws" and n: "length ws \<le> 2 ^ 20" and s: "s < 10000000"
    and e: "\<forall>i<length ws. \<forall>pos<15. lslot_of (ws ! i) pos \<noteq> s \<and> rslot_of (ws ! i) pos \<noteq> s"
  shows "posting_d (build_index ws) s = []"
proof -
  have "\<forall>x \<in> set (dpostings (\<lambda>i. ws ! i) (length ws)). fst x \<noteq> s"
    using e by (fastforce simp add: dpostings_member)
  then have "slot_payload (dpostings (\<lambda>i. ws ! i) (length ws)) s = []"
    by (simp add: slot_payload_def filter_empty_conv)
  then show ?thesis by (simp only: posting_d_built [OF v n s])
qed

lemma query_postings_d_none:
  assumes v: "list_all valid_word ws" and n: "length ws \<le> 2 ^ 20" and q: "valid_word q"
    and e: "\<forall>pos<15. \<forall>i<length ws. \<forall>pos'<15.
        lslot_of (ws ! i) pos' \<noteq> lslot_of q pos \<and> rslot_of (ws ! i) pos' \<noteq> lslot_of q pos
      \<and> lslot_of (ws ! i) pos' \<noteq> rslot_of q pos \<and> rslot_of (ws ! i) pos' \<noteq> rslot_of q pos"
  shows "\<forall>pos<15.
       posting_d (build_index ws) (nat (sint (pack_key7 (take 7 (qdel_string q pos))))) = []
     \<and> posting_d (build_index ws) (nat (sint (pack_key7 (take 7 (drop 7 (qdel_string q pos)))))) = []"
proof (intro allI impI)
  fix pos :: nat
  assume pos: "pos < 15"
  have b: "lslot_of q pos < 10000000" "rslot_of q pos < 10000000"
    using dslot_bound [OF valid_word_nth [OF q] pos] by simp_all
  have "posting_d (build_index ws) (lslot_of q pos) = []"
    by (rule posting_d_none [OF v n b(1)]) (use e pos in blast)
  moreover have "posting_d (build_index ws) (rslot_of q pos) = []"
    by (rule posting_d_none [OF v n b(2)]) (use e pos in blast)
  ultimately show "posting_d (build_index ws) (nat (sint (pack_key7 (take 7 (qdel_string q pos))))) = []
     \<and> posting_d (build_index ws) (nat (sint (pack_key7 (take 7 (drop 7 (qdel_string q pos)))))) = []"
    by (simp only: query_dslots [OF q pos] simp_thms)
qed

lemma map_upt_mem: "map f [0..<n] = xs \<Longrightarrow> i < n \<Longrightarrow> f i \<in> set xs"
  by (metis length_map length_upt minus_nat.diff_0 nth_map_upt nth_mem plus_nat.add_0)

subsection \<open>A dictionary of two words and three queries\<close>

text \<open>The dictionary is \<open>ABCDEFGHIABCDEF\<close>, \<open>BCDEFGHIABCDEFG\<close>.  The query
  \<open>ABCJEFGJIABJDEF\<close> differs from the first word at positions 3, 7 and 11 and shares its
  blocks 0 and 4; the query \<open>JJJJJJJJJJJJJJJ\<close> meets no posting in either table.\<close>


lemma hs_w0: "map (hslot ''ABCDEFGHIABCDEF'') [0..<10] = [543210, 1876210, 2210210, 3543210, 4876543, 5210543, 6543543, 7210876, 8543876, 9543210]"
  by (simp add: upt10 hslot_def pack_key6_def blocks_of_def pair_key_def pair_i_def pair_j_def
      nib32_def char_val_def upt6 upt3 upt5 CASEFILTER_H_KEY_SPACE_def)

lemma hs_w1: "map (hslot ''BCDEFGHIABCDEFG'') [0..<10] = [654321, 1087321, 2321321, 3654321, 4087654, 5321654, 6654654, 7321087, 8654087, 9654321]"
  by (simp add: upt10 hslot_def pack_key6_def blocks_of_def pair_key_def pair_i_def pair_j_def
      nib32_def char_val_def upt6 upt3 upt5 CASEFILTER_H_KEY_SPACE_def)

lemma hs_q: "map (hslot ''ABCJEFGJIABJDEF'') [0..<10] = [549210, 1896210, 2910210, 3543210, 4896549, 5910549, 6543549, 7910896, 8543896, 9543910]"
  by (simp add: upt10 hslot_def pack_key6_def blocks_of_def pair_key_def pair_i_def pair_j_def
      nib32_def char_val_def upt6 upt3 upt5 CASEFILTER_H_KEY_SPACE_def)

lemma hs_qm: "map (hslot ''JJJJJJJJJJJJJJJ'') [0..<10] = [999999, 1999999, 2999999, 3999999, 4999999, 5999999, 6999999, 7999999, 8999999, 9999999]"
  by (simp add: upt10 hslot_def pack_key6_def blocks_of_def pair_key_def pair_i_def pair_j_def
      nib32_def char_val_def upt6 upt3 upt5 CASEFILTER_H_KEY_SPACE_def)

lemma ls_w0: "map (lslot_of ''ABCDEFGHIABCDEF'') [0..<15] = [7654321, 7654320, 7654310, 7654210, 7653210, 7643210, 7543210, 6543210, 6543210, 6543210, 6543210, 6543210, 6543210, 6543210, 6543210]"
  by (simp add: upt15 lslot_of_def del_string_def KEYWORD_LEN_def pack_key7_def upt7 nib32_def
      char_val_def)

lemma rs_w0: "map (rslot_of ''ABCDEFGHIABCDEF'') [0..<15] = [5432108, 5432108, 5432108, 5432108, 5432108, 5432108, 5432108, 5432108, 5432107, 5432187, 5432087, 5431087, 5421087, 5321087, 4321087]"
  by (simp add: upt15 rslot_of_def del_string_def KEYWORD_LEN_def pack_key7_def upt7 nib32_def
      char_val_def)

lemma ls_w1: "map (lslot_of ''BCDEFGHIABCDEFG'') [0..<15] = [8765432, 8765431, 8765421, 8765321, 8764321, 8754321, 8654321, 7654321, 7654321, 7654321, 7654321, 7654321, 7654321, 7654321, 7654321]"
  by (simp add: upt15 lslot_of_def del_string_def KEYWORD_LEN_def pack_key7_def upt7 nib32_def
      char_val_def)

lemma rs_w1: "map (rslot_of ''BCDEFGHIABCDEFG'') [0..<15] = [6543210, 6543210, 6543210, 6543210, 6543210, 6543210, 6543210, 6543210, 6543218, 6543208, 6543108, 6542108, 6532108, 6432108, 5432108]"
  by (simp add: upt15 rslot_of_def del_string_def KEYWORD_LEN_def pack_key7_def upt7 nib32_def
      char_val_def)

lemma ls_q: "map (lslot_of ''ABCJEFGJIABJDEF'') [0..<15] = [9654921, 9654920, 9654910, 9654210, 9659210, 9649210, 9549210, 6549210, 6549210, 6549210, 6549210, 6549210, 6549210, 6549210, 6549210]"
  by (simp add: upt15 lslot_of_def del_string_def KEYWORD_LEN_def pack_key7_def upt7 nib32_def
      char_val_def)

lemma rs_q: "map (rslot_of ''ABCJEFGJIABJDEF'') [0..<15] = [5439108, 5439108, 5439108, 5439108, 5439108, 5439108, 5439108, 5439108, 5439109, 5439189, 5439089, 5431089, 5491089, 5391089, 4391089]"
  by (simp add: upt15 rslot_of_def del_string_def KEYWORD_LEN_def pack_key7_def upt7 nib32_def
      char_val_def)

lemma ls_qm: "map (lslot_of ''JJJJJJJJJJJJJJJ'') [0..<15] = [9999999, 9999999, 9999999, 9999999, 9999999, 9999999, 9999999, 9999999, 9999999, 9999999, 9999999, 9999999, 9999999, 9999999, 9999999]"
  by (simp add: upt15 lslot_of_def del_string_def KEYWORD_LEN_def pack_key7_def upt7 nib32_def
      char_val_def)

lemma rs_qm: "map (rslot_of ''JJJJJJJJJJJJJJJ'') [0..<15] = [9999999, 9999999, 9999999, 9999999, 9999999, 9999999, 9999999, 9999999, 9999999, 9999999, 9999999, 9999999, 9999999, 9999999, 9999999]"
  by (simp add: upt15 rslot_of_def del_string_def KEYWORD_LEN_def pack_key7_def upt7 nib32_def
      char_val_def)

lemma two_words_valid:
  "list_all valid_word [''ABCDEFGHIABCDEF'', ''BCDEFGHIABCDEFG'']" "length [''ABCDEFGHIABCDEF'', ''BCDEFGHIABCDEFG''] \<le> 2 ^ 20"
  "valid_word ''ABCJEFGJIABJDEF''" "valid_word ''JJJJJJJJJJJJJJJ''" "valid_word ''BCDEFGHIABCDEFG''" "valid_word ''ABCDEFGHIABCDEF''"
  by (simp_all add: valid_word_def valid_sym_def)

lemma two_words_index:
  "keyword_count (build_index [''ABCDEFGHIABCDEF'', ''BCDEFGHIABCDEFG'']) = 2"
  "codes (build_index [''ABCDEFGHIABCDEF'', ''BCDEFGHIABCDEFG'']) 0 = pack_keyword ''ABCDEFGHIABCDEF''"
  "codes (build_index [''ABCDEFGHIABCDEF'', ''BCDEFGHIABCDEFG'']) 1 = pack_keyword ''BCDEFGHIABCDEFG''"
  using build_index_words(1) [of "[''ABCDEFGHIABCDEF'', ''BCDEFGHIABCDEFG'']"]
    build_index_words(2) [of 0 "[''ABCDEFGHIABCDEF'', ''BCDEFGHIABCDEFG'']"] build_index_words(2) [of 1 "[''ABCDEFGHIABCDEF'', ''BCDEFGHIABCDEFG'']"]
  by simp_all

lemma two_words_nth: "i < length [''ABCDEFGHIABCDEF'', ''BCDEFGHIABCDEFG''] \<Longrightarrow> [''ABCDEFGHIABCDEF'', ''BCDEFGHIABCDEFG''] ! i = ''ABCDEFGHIABCDEF'' \<or> [''ABCDEFGHIABCDEF'', ''BCDEFGHIABCDEFG''] ! i = ''BCDEFGHIABCDEFG''"
  by (cases i) simp_all


lemma apart: "a \<in> A \<Longrightarrow> b \<in> B \<Longrightarrow> A \<inter> B = {}
      \<Longrightarrow> a \<noteq> b"
  by auto

lemma hslots_apart:
  "set [549210, 1896210, 2910210, 3543210, 4896549, 5910549, 6543549, 7910896, 8543896, 9543910]
        \<inter> set ([654321, 1087321, 2321321, 3654321, 4087654, 5321654, 6654654, 7321087,
        8654087, 9654321] :: nat list) = {}"
  "set [543210, 1876210, 2210210, 3543210, 4876543, 5210543, 6543543, 7210876, 8543876, 9543210]
        \<inter> set ([654321, 1087321, 2321321, 3654321, 4087654, 5321654, 6654654, 7321087,
        8654087, 9654321] :: nat list) = {}"
  "set [543210, 1876210, 2210210, 3543210, 4876543, 5210543, 6543543, 7210876, 8543876, 9543210]
        \<inter> set ([999999, 1999999, 2999999, 3999999, 4999999, 5999999, 6999999, 7999999,
        8999999, 9999999] :: nat list) = {}"
  "set [654321, 1087321, 2321321, 3654321, 4087654, 5321654, 6654654, 7321087, 8654087, 9654321]
        \<inter> set ([999999, 1999999, 2999999, 3999999, 4999999, 5999999, 6999999, 7999999,
        8999999, 9999999] :: nat list) = {}"
  by simp_all

lemma dslots_apart:
  "(set [7654321, 7654320, 7654310, 7654210, 7653210, 7643210, 7543210, 6543210, 6543210, 6543210,
        6543210, 6543210, 6543210, 6543210, 6543210] \<union> set [5432108, 5432108, 5432108,
        5432108, 5432108, 5432108, 5432108, 5432108, 5432107, 5432187, 5432087, 5431087, 5421087,
        5321087, 4321087] \<union> set [8765432, 8765431, 8765421, 8765321, 8764321, 8754321,
        8654321, 7654321, 7654321, 7654321, 7654321, 7654321, 7654321, 7654321, 7654321] \<union>
        set [6543210, 6543210, 6543210, 6543210, 6543210, 6543210, 6543210, 6543210, 6543218,
        6543208, 6543108, 6542108, 6532108, 6432108, 5432108]) \<inter> (set [9654921, 9654920,
        9654910, 9654210, 9659210, 9649210, 9549210, 6549210, 6549210, 6549210, 6549210, 6549210,
        6549210, 6549210, 6549210] \<union> set [5439108, 5439108, 5439108, 5439108, 5439108,
        5439108, 5439108, 5439108, 5439109, 5439189, 5439089, 5431089, 5491089, 5391089, 4391089]) =
        ({} :: nat set)"
  "(set [7654321, 7654320, 7654310, 7654210, 7653210, 7643210, 7543210, 6543210, 6543210, 6543210,
        6543210, 6543210, 6543210, 6543210, 6543210] \<union> set [5432108, 5432108, 5432108,
        5432108, 5432108, 5432108, 5432108, 5432108, 5432107, 5432187, 5432087, 5431087, 5421087,
        5321087, 4321087] \<union> set [8765432, 8765431, 8765421, 8765321, 8764321, 8754321,
        8654321, 7654321, 7654321, 7654321, 7654321, 7654321, 7654321, 7654321, 7654321] \<union>
        set [6543210, 6543210, 6543210, 6543210, 6543210, 6543210, 6543210, 6543210, 6543218,
        6543208, 6543108, 6542108, 6532108, 6432108, 5432108]) \<inter> (set [9999999, 9999999,
        9999999, 9999999, 9999999, 9999999, 9999999, 9999999, 9999999, 9999999, 9999999, 9999999,
        9999999, 9999999, 9999999] \<union> set [9999999, 9999999, 9999999, 9999999, 9999999,
        9999999, 9999999, 9999999, 9999999, 9999999, 9999999, 9999999, 9999999, 9999999, 9999999]) =
        ({} :: nat set)"
  by simp_all

lemma dict_dslots:
  assumes i: "i < length [''ABCDEFGHIABCDEF'', ''BCDEFGHIABCDEFG'']" and pos: "pos < 15"
  shows "lslot_of ([''ABCDEFGHIABCDEF'', ''BCDEFGHIABCDEFG''] ! i) pos \<in> (set [7654321, 7654320,
        7654310, 7654210, 7653210, 7643210, 7543210, 6543210, 6543210, 6543210, 6543210, 6543210,
        6543210, 6543210, 6543210] \<union> set [5432108, 5432108, 5432108, 5432108, 5432108,
        5432108, 5432108, 5432108, 5432107, 5432187, 5432087, 5431087, 5421087, 5321087, 4321087]
        \<union> set [8765432, 8765431, 8765421, 8765321, 8764321, 8754321, 8654321, 7654321,
        7654321, 7654321, 7654321, 7654321, 7654321, 7654321, 7654321] \<union> set [6543210,
        6543210, 6543210, 6543210, 6543210, 6543210, 6543210, 6543210, 6543218, 6543208, 6543108,
        6542108, 6532108, 6432108, 5432108])"
    and "rslot_of ([''ABCDEFGHIABCDEF'', ''BCDEFGHIABCDEFG''] ! i) pos \<in> (set [7654321, 7654320,
          7654310, 7654210, 7653210, 7643210, 7543210, 6543210, 6543210, 6543210, 6543210, 6543210,
          6543210, 6543210, 6543210] \<union> set [5432108, 5432108, 5432108, 5432108, 5432108,
          5432108, 5432108, 5432108, 5432107, 5432187, 5432087, 5431087, 5421087, 5321087, 4321087]
          \<union> set [8765432, 8765431, 8765421, 8765321, 8764321, 8754321, 8654321, 7654321,
          7654321, 7654321, 7654321, 7654321, 7654321, 7654321, 7654321] \<union> set [6543210,
          6543210, 6543210, 6543210, 6543210, 6543210, 6543210, 6543210, 6543218, 6543208, 6543108,
          6542108, 6532108, 6432108, 5432108])"
proof -
  have l0: "lslot_of ''ABCDEFGHIABCDEF'' pos \<in> (set [7654321, 7654320, 7654310, 7654210,
        7653210, 7643210, 7543210, 6543210, 6543210, 6543210, 6543210, 6543210, 6543210, 6543210,
        6543210] \<union> set [5432108, 5432108, 5432108, 5432108, 5432108, 5432108, 5432108,
        5432108, 5432107, 5432187, 5432087, 5431087, 5421087, 5321087, 4321087] \<union> set
        [8765432, 8765431, 8765421, 8765321, 8764321, 8754321, 8654321, 7654321, 7654321, 7654321,
        7654321, 7654321, 7654321, 7654321, 7654321] \<union> set [6543210, 6543210, 6543210,
        6543210, 6543210, 6543210, 6543210, 6543210, 6543218, 6543208, 6543108, 6542108, 6532108,
        6432108, 5432108])"
    by (intro UnI1, rule map_upt_mem [OF ls_w0 pos])
  have r0: "rslot_of ''ABCDEFGHIABCDEF'' pos \<in> (set [7654321, 7654320, 7654310, 7654210,
        7653210, 7643210, 7543210, 6543210, 6543210, 6543210, 6543210, 6543210, 6543210, 6543210,
        6543210] \<union> set [5432108, 5432108, 5432108, 5432108, 5432108, 5432108, 5432108,
        5432108, 5432107, 5432187, 5432087, 5431087, 5421087, 5321087, 4321087] \<union> set
        [8765432, 8765431, 8765421, 8765321, 8764321, 8754321, 8654321, 7654321, 7654321, 7654321,
        7654321, 7654321, 7654321, 7654321, 7654321] \<union> set [6543210, 6543210, 6543210,
        6543210, 6543210, 6543210, 6543210, 6543210, 6543218, 6543208, 6543108, 6542108, 6532108,
        6432108, 5432108])"
    by (intro UnI1 UnI2, rule map_upt_mem [OF rs_w0 pos])
  have l1: "lslot_of ''BCDEFGHIABCDEFG'' pos \<in> (set [7654321, 7654320, 7654310, 7654210,
        7653210, 7643210, 7543210, 6543210, 6543210, 6543210, 6543210, 6543210, 6543210, 6543210,
        6543210] \<union> set [5432108, 5432108, 5432108, 5432108, 5432108, 5432108, 5432108,
        5432108, 5432107, 5432187, 5432087, 5431087, 5421087, 5321087, 4321087] \<union> set
        [8765432, 8765431, 8765421, 8765321, 8764321, 8754321, 8654321, 7654321, 7654321, 7654321,
        7654321, 7654321, 7654321, 7654321, 7654321] \<union> set [6543210, 6543210, 6543210,
        6543210, 6543210, 6543210, 6543210, 6543210, 6543218, 6543208, 6543108, 6542108, 6532108,
        6432108, 5432108])"
    by (rule UnI1, rule UnI2, rule map_upt_mem [OF ls_w1 pos])
  have r1: "rslot_of ''BCDEFGHIABCDEFG'' pos \<in> (set [7654321, 7654320, 7654310, 7654210,
        7653210, 7643210, 7543210, 6543210, 6543210, 6543210, 6543210, 6543210, 6543210, 6543210,
        6543210] \<union> set [5432108, 5432108, 5432108, 5432108, 5432108, 5432108, 5432108,
        5432108, 5432107, 5432187, 5432087, 5431087, 5421087, 5321087, 4321087] \<union> set
        [8765432, 8765431, 8765421, 8765321, 8764321, 8754321, 8654321, 7654321, 7654321, 7654321,
        7654321, 7654321, 7654321, 7654321, 7654321] \<union> set [6543210, 6543210, 6543210,
        6543210, 6543210, 6543210, 6543210, 6543210, 6543218, 6543208, 6543108, 6542108, 6532108,
        6432108, 5432108])"
    by (rule UnI2, rule map_upt_mem [OF rs_w1 pos])
  from two_words_nth [OF i] show "lslot_of ([''ABCDEFGHIABCDEF'', ''BCDEFGHIABCDEFG''] ! i) pos
        \<in> (set [7654321, 7654320, 7654310, 7654210, 7653210, 7643210, 7543210, 6543210, 6543210,
        6543210, 6543210, 6543210, 6543210, 6543210, 6543210] \<union> set [5432108, 5432108,
        5432108, 5432108, 5432108, 5432108, 5432108, 5432108, 5432107, 5432187, 5432087, 5431087,
        5421087, 5321087, 4321087] \<union> set [8765432, 8765431, 8765421, 8765321, 8764321,
        8754321, 8654321, 7654321, 7654321, 7654321, 7654321, 7654321, 7654321, 7654321, 7654321]
        \<union> set [6543210, 6543210, 6543210, 6543210, 6543210, 6543210, 6543210, 6543210,
        6543218, 6543208, 6543108, 6542108, 6532108, 6432108, 5432108])"
  proof
    assume e: "[''ABCDEFGHIABCDEF'', ''BCDEFGHIABCDEFG''] ! i = ''ABCDEFGHIABCDEF''"
    show ?thesis unfolding e by (rule l0)
  next
    assume e: "[''ABCDEFGHIABCDEF'', ''BCDEFGHIABCDEFG''] ! i = ''BCDEFGHIABCDEFG''"
    show ?thesis unfolding e by (rule l1)
  qed
  from two_words_nth [OF i] show "rslot_of ([''ABCDEFGHIABCDEF'', ''BCDEFGHIABCDEFG''] ! i) pos
        \<in> (set [7654321, 7654320, 7654310, 7654210, 7653210, 7643210, 7543210, 6543210, 6543210,
        6543210, 6543210, 6543210, 6543210, 6543210, 6543210] \<union> set [5432108, 5432108,
        5432108, 5432108, 5432108, 5432108, 5432108, 5432108, 5432107, 5432187, 5432087, 5431087,
        5421087, 5321087, 4321087] \<union> set [8765432, 8765431, 8765421, 8765321, 8764321,
        8754321, 8654321, 7654321, 7654321, 7654321, 7654321, 7654321, 7654321, 7654321, 7654321]
        \<union> set [6543210, 6543210, 6543210, 6543210, 6543210, 6543210, 6543210, 6543210,
        6543218, 6543208, 6543108, 6542108, 6532108, 6432108, 5432108])"
  proof
    assume e: "[''ABCDEFGHIABCDEF'', ''BCDEFGHIABCDEFG''] ! i = ''ABCDEFGHIABCDEF''"
    show ?thesis unfolding e by (rule r0)
  next
    assume e: "[''ABCDEFGHIABCDEF'', ''BCDEFGHIABCDEFG''] ! i = ''BCDEFGHIABCDEFG''"
    show ?thesis unfolding e by (rule r1)
  qed
qed

lemma q_postings_a:
  "\<forall>p<10. \<forall>wid \<in> set (posting_a (build_index [''ABCDEFGHIABCDEF'',
        ''BCDEFGHIABCDEFG'']) (query_pairs (build_index [''ABCDEFGHIABCDEF'', ''BCDEFGHIABCDEFG''])
        ''ABCJEFGJIABJDEF'' ! p)). nat wid = 0"
proof (intro allI impI ballI)
  fix p :: nat and wid
  assume p: "p < 10"
    and m: "wid \<in> set (posting_a (build_index [''ABCDEFGHIABCDEF'', ''BCDEFGHIABCDEFG''])
          (query_pairs (build_index [''ABCDEFGHIABCDEF'', ''BCDEFGHIABCDEFG'']) ''ABCJEFGJIABJDEF''
          ! p))"
  from posting_a_ids [OF two_words_valid(1,2,3) p m] obtain i p' where
    i: "i < length [''ABCDEFGHIABCDEF'', ''BCDEFGHIABCDEFG'']" and w: "wid = int i" and p': "p' <
          10"
    and e: "hslot ([''ABCDEFGHIABCDEF'', ''BCDEFGHIABCDEFG''] ! i) p' = hslot ''ABCJEFGJIABJDEF'' p"
    by blast
  have "hslot ''ABCJEFGJIABJDEF'' p \<noteq> hslot ''BCDEFGHIABCDEFG'' p'"
    by (rule apart [OF map_upt_mem [OF hs_q p] map_upt_mem [OF hs_w1 p'] hslots_apart(1)])
  then have "i \<noteq> 1" using e by (cases "i = 1") simp_all
  then have "i = 0" using i by (cases i) simp_all
  then show "nat wid = 0" using w by simp
qed

lemma w1_postings_a:
  "\<forall>p<10. \<forall>wid \<in> set (posting_a (build_index [''ABCDEFGHIABCDEF'',
        ''BCDEFGHIABCDEFG'']) (query_pairs (build_index [''ABCDEFGHIABCDEF'', ''BCDEFGHIABCDEFG''])
        ''BCDEFGHIABCDEFG'' ! p)). nat wid \<noteq> 0"
proof (intro allI impI ballI)
  fix p :: nat and wid
  assume p: "p < 10"
    and m: "wid \<in> set (posting_a (build_index [''ABCDEFGHIABCDEF'', ''BCDEFGHIABCDEFG''])
          (query_pairs (build_index [''ABCDEFGHIABCDEF'', ''BCDEFGHIABCDEFG'']) ''BCDEFGHIABCDEFG''
          ! p))"
  from posting_a_ids [OF two_words_valid(1,2,5) p m] obtain i p' where
    i: "i < length [''ABCDEFGHIABCDEF'', ''BCDEFGHIABCDEFG'']" and w: "wid = int i" and p': "p' <
          10"
    and e: "hslot ([''ABCDEFGHIABCDEF'', ''BCDEFGHIABCDEFG''] ! i) p' = hslot ''BCDEFGHIABCDEFG'' p"
    by blast
  have "hslot ''ABCDEFGHIABCDEF'' p' \<noteq> hslot ''BCDEFGHIABCDEFG'' p"
    by (rule apart [OF map_upt_mem [OF hs_w0 p'] map_upt_mem [OF hs_w1 p] hslots_apart(2)])
  then have "i \<noteq> 0" using e by (cases "i = 0") simp_all
  then show "nat wid \<noteq> 0" using w by simp
qed

lemma qm_postings_a:
  "\<forall>p<10. posting_a (build_index [''ABCDEFGHIABCDEF'', ''BCDEFGHIABCDEFG'']) (query_pairs
        (build_index [''ABCDEFGHIABCDEF'', ''BCDEFGHIABCDEFG'']) ''JJJJJJJJJJJJJJJ'' ! p) = []"
proof (intro allI impI)
  fix p :: nat
  assume p: "p < 10"
  have "wid \<notin> set (posting_a (build_index [''ABCDEFGHIABCDEF'', ''BCDEFGHIABCDEFG''])
        (query_pairs (build_index [''ABCDEFGHIABCDEF'', ''BCDEFGHIABCDEFG'']) ''JJJJJJJJJJJJJJJ'' !
        p))" for wid
  proof
    assume m: "wid \<in> set (posting_a (build_index [''ABCDEFGHIABCDEF'', ''BCDEFGHIABCDEFG''])
          (query_pairs (build_index [''ABCDEFGHIABCDEF'', ''BCDEFGHIABCDEFG'']) ''JJJJJJJJJJJJJJJ''
          ! p))"
    from posting_a_ids [OF two_words_valid(1,2,4) p m] obtain i p' where
      i: "i < length [''ABCDEFGHIABCDEF'', ''BCDEFGHIABCDEFG'']" and p': "p' < 10"
      and e: "hslot ([''ABCDEFGHIABCDEF'', ''BCDEFGHIABCDEFG''] ! i) p' = hslot ''JJJJJJJJJJJJJJJ''
            p"
      by blast
    have a: "hslot ''ABCDEFGHIABCDEF'' p' \<noteq> hslot ''JJJJJJJJJJJJJJJ'' p"
      by (rule apart [OF map_upt_mem [OF hs_w0 p'] map_upt_mem [OF hs_qm p] hslots_apart(3)])
    have b: "hslot ''BCDEFGHIABCDEFG'' p' \<noteq> hslot ''JJJJJJJJJJJJJJJ'' p"
      by (rule apart [OF map_upt_mem [OF hs_w1 p'] map_upt_mem [OF hs_qm p] hslots_apart(4)])
    from two_words_nth [OF i] show False
    proof
      assume "[''ABCDEFGHIABCDEF'', ''BCDEFGHIABCDEFG''] ! i = ''ABCDEFGHIABCDEF''"
      then show False using e a by simp
    next
      assume "[''ABCDEFGHIABCDEF'', ''BCDEFGHIABCDEFG''] ! i = ''BCDEFGHIABCDEFG''"
      then show False using e b by simp
    qed
  qed
  then show "posting_a (build_index [''ABCDEFGHIABCDEF'', ''BCDEFGHIABCDEFG'']) (query_pairs
        (build_index [''ABCDEFGHIABCDEF'', ''BCDEFGHIABCDEFG'']) ''JJJJJJJJJJJJJJJ'' ! p) = []"
    by (meson last_in_set)
qed

lemma q_postings_d:
  "\<forall>pos<15.
       posting_d (build_index [''ABCDEFGHIABCDEF'', ''BCDEFGHIABCDEFG'']) (nat (sint (pack_key7
             (take 7 (qdel_string ''ABCJEFGJIABJDEF'' pos))))) = []
     \<and> posting_d (build_index [''ABCDEFGHIABCDEF'', ''BCDEFGHIABCDEFG'']) (nat (sint (pack_key7
           (take 7 (drop 7 (qdel_string ''ABCJEFGJIABJDEF'' pos)))))) = []"
proof (rule query_postings_d_none [OF two_words_valid(1,2,3)], intro allI impI)
  fix pos i pos' :: nat
  assume pos: "pos < 15" and i: "i < length [''ABCDEFGHIABCDEF'', ''BCDEFGHIABCDEFG'']" and pos':
        "pos' < 15"
  note d = dict_dslots [OF i pos']
  have a: "lslot_of ''ABCJEFGJIABJDEF'' pos \<in> (set [9654921, 9654920, 9654910, 9654210, 9659210,
        9649210, 9549210, 6549210, 6549210, 6549210, 6549210, 6549210, 6549210, 6549210, 6549210]
        \<union> set [5439108, 5439108, 5439108, 5439108, 5439108, 5439108, 5439108, 5439108,
        5439109, 5439189, 5439089, 5431089, 5491089, 5391089, 4391089])" "rslot_of
        ''ABCJEFGJIABJDEF'' pos \<in> (set [9654921, 9654920, 9654910, 9654210, 9659210, 9649210,
        9549210, 6549210, 6549210, 6549210, 6549210, 6549210, 6549210, 6549210, 6549210] \<union>
        set [5439108, 5439108, 5439108, 5439108, 5439108, 5439108, 5439108, 5439108, 5439109,
        5439189, 5439089, 5431089, 5491089, 5391089, 4391089])"
    by (rule UnI1, rule map_upt_mem [OF ls_q pos], rule UnI2, rule map_upt_mem [OF rs_q pos])
  show "lslot_of ([''ABCDEFGHIABCDEF'', ''BCDEFGHIABCDEFG''] ! i) pos' \<noteq> lslot_of
        ''ABCJEFGJIABJDEF'' pos
      \<and> rslot_of ([''ABCDEFGHIABCDEF'', ''BCDEFGHIABCDEFG''] ! i) pos' \<noteq> lslot_of
            ''ABCJEFGJIABJDEF'' pos
      \<and> lslot_of ([''ABCDEFGHIABCDEF'', ''BCDEFGHIABCDEFG''] ! i) pos' \<noteq> rslot_of
            ''ABCJEFGJIABJDEF'' pos
      \<and> rslot_of ([''ABCDEFGHIABCDEF'', ''BCDEFGHIABCDEFG''] ! i) pos' \<noteq> rslot_of
            ''ABCJEFGJIABJDEF'' pos"
    by (intro conjI apart [OF d(1) a(1) dslots_apart(1)] apart [OF d(2) a(1) dslots_apart(1)]
        apart [OF d(1) a(2) dslots_apart(1)] apart [OF d(2) a(2) dslots_apart(1)])
qed

lemma qm_postings_d:
  "\<forall>pos<15.
       posting_d (build_index [''ABCDEFGHIABCDEF'', ''BCDEFGHIABCDEFG'']) (nat (sint (pack_key7
             (take 7 (qdel_string ''JJJJJJJJJJJJJJJ'' pos))))) = []
     \<and> posting_d (build_index [''ABCDEFGHIABCDEF'', ''BCDEFGHIABCDEFG'']) (nat (sint (pack_key7
           (take 7 (drop 7 (qdel_string ''JJJJJJJJJJJJJJJ'' pos)))))) = []"
proof (rule query_postings_d_none [OF two_words_valid(1,2,4)], intro allI impI)
  fix pos i pos' :: nat
  assume pos: "pos < 15" and i: "i < length [''ABCDEFGHIABCDEF'', ''BCDEFGHIABCDEFG'']" and pos':
        "pos' < 15"
  note d = dict_dslots [OF i pos']
  have a: "lslot_of ''JJJJJJJJJJJJJJJ'' pos \<in> (set [9999999, 9999999, 9999999, 9999999, 9999999,
        9999999, 9999999, 9999999, 9999999, 9999999, 9999999, 9999999, 9999999, 9999999, 9999999]
        \<union> set [9999999, 9999999, 9999999, 9999999, 9999999, 9999999, 9999999, 9999999,
        9999999, 9999999, 9999999, 9999999, 9999999, 9999999, 9999999])" "rslot_of
        ''JJJJJJJJJJJJJJJ'' pos \<in> (set [9999999, 9999999, 9999999, 9999999, 9999999, 9999999,
        9999999, 9999999, 9999999, 9999999, 9999999, 9999999, 9999999, 9999999, 9999999] \<union>
        set [9999999, 9999999, 9999999, 9999999, 9999999, 9999999, 9999999, 9999999, 9999999,
        9999999, 9999999, 9999999, 9999999, 9999999, 9999999])"
    by (rule UnI1, rule map_upt_mem [OF ls_qm pos], rule UnI2, rule map_upt_mem [OF rs_qm pos])
  show "lslot_of ([''ABCDEFGHIABCDEF'', ''BCDEFGHIABCDEFG''] ! i) pos' \<noteq> lslot_of
        ''JJJJJJJJJJJJJJJ'' pos
      \<and> rslot_of ([''ABCDEFGHIABCDEF'', ''BCDEFGHIABCDEFG''] ! i) pos' \<noteq> lslot_of
            ''JJJJJJJJJJJJJJJ'' pos
      \<and> lslot_of ([''ABCDEFGHIABCDEF'', ''BCDEFGHIABCDEFG''] ! i) pos' \<noteq> rslot_of
            ''JJJJJJJJJJJJJJJ'' pos
      \<and> rslot_of ([''ABCDEFGHIABCDEF'', ''BCDEFGHIABCDEFG''] ! i) pos' \<noteq> rslot_of
            ''JJJJJJJJJJJJJJJ'' pos"
    by (intro conjI apart [OF d(1) a(1) dslots_apart(2)] apart [OF d(2) a(1) dslots_apart(2)]
        apart [OF d(1) a(2) dslots_apart(2)] apart [OF d(2) a(2) dslots_apart(2)])
qed


subsection \<open>The four stages of the run\<close>

lemma map_upt_nth: "map f [0..<n] = xs \<Longrightarrow> i < n \<Longrightarrow> f i = xs ! i"
  by (metis add_0 nth_map_upt minus_nat.diff_0)

lemma order_all:
  "\<forall>p<10. P p \<Longrightarrow> \<forall>p \<in> set (sort_order pairs). P p"
  by (simp add: sort_order_props)

text \<open>First search, from the initial state: the buffer is allocated, Phase A runs with
  generation 2, finds word 0 through pair 3 and marks it.\<close>

lemma wrap_stage1:
  "casefilter_search (build_index [''ABCDEFGHIABCDEF'', ''BCDEFGHIABCDEFG'']) ''ABCJEFGJIABJDEF'' 3
        initial_state
     = (1, \<lparr> visited_buf = Some ((\<lambda>_. 0)(0 := 2)), visited_cap = 2, gen = 2
           \<rparr>)"
proof -
  define idx where "idx = (build_index [''ABCDEFGHIABCDEF'', ''BCDEFGHIABCDEFG''])"
  define ra where "ra = phase_a idx (query_pairs idx ''ABCJEFGJIABJDEF'') (pack_keyword
        ''ABCJEFGJIABJDEF'') 3 2
      (sort_order (query_pairs idx ''ABCJEFGJIABJDEF'')) (\<lambda>_. 0)"
  note ix = two_words_index [folded idx_def]
  have ids: "\<forall>p \<in> set (sort_order (query_pairs idx ''ABCJEFGJIABJDEF'')).
      \<forall>wid \<in> set (posting_a idx (query_pairs idx ''ABCJEFGJIABJDEF'' ! p)). nat wid = 0"
    by (rule order_all) (use q_postings_a in \<open>simp add: idx_def\<close>)
  have e3: "hslot ([''ABCDEFGHIABCDEF'', ''BCDEFGHIABCDEFG''] ! 0) 3 = hslot ''ABCJEFGJIABJDEF'' 3"
    using map_upt_nth [OF hs_w0, of 3] map_upt_nth [OF hs_q, of 3] by simp
  have m: "0 \<in> set (posting_a idx (query_pairs idx ''ABCJEFGJIABJDEF'' ! 3))"
    using posting_a_has [OF two_words_valid(1,2,3), of 3 0 3] e3 by (simp add: idx_def)
  have hd: "hamming ''ABCJEFGJIABJDEF'' ''ABCDEFGHIABCDEF'' = 3" by (simp add: hamming_def)
  have h: "hamming_packed15 (pack_keyword ''ABCJEFGJIABJDEF'') (codes idx (nat 0)) \<le> 3"
    using hamming_packed15_words [OF two_words_valid(3,6)] by (simp add: ix hd)
  have hit: "fst ra"
    unfolding ra_def
    by (rule phase_a_hit [where ?p0.0 = 3 and ?wid0.0 = 0, OF _ m h]) (simp_all add:
          sort_order_props)
  have buf: "snd ra = (\<lambda>_. 0)(0 := 2)"
  proof
    fix j
    show "snd ra j = ((\<lambda>_. 0)(0 := 2)) j"
    proof (cases "j = 0")
      case True
      have "snd ra 0 = 2" using hit ids unfolding ra_def by (rule phase_a_mark)
      then show ?thesis using True by simp
    next
      case False
      have "\<forall>p \<in> set (sort_order (query_pairs idx ''ABCJEFGJIABJDEF'')).
          \<forall>wid \<in> set (posting_a idx (query_pairs idx ''ABCJEFGJIABJDEF'' ! p)). nat wid
                \<noteq> j"
        using ids False by auto
      then have "snd ra j = 0" unfolding ra_def by (rule phase_a_frame)
      then show ?thesis using False by simp
    qed
  qed
  have cold: "casefilter_search idx ''ABCJEFGJIABJDEF'' 3 initial_state
      = casefilter_search idx ''ABCJEFGJIABJDEF'' 3
          \<lparr> visited_buf = Some (\<lambda>_. 0), visited_cap = keyword_count idx, gen = 1
                \<rparr>"
    by (rule search_cold) (simp_all add: initial_state_def ix)
  have warm: "casefilter_search idx ''ABCJEFGJIABJDEF'' 3
          \<lparr> visited_buf = Some (\<lambda>_. 0), visited_cap = keyword_count idx, gen = 1
                \<rparr>
      = (1, \<lparr> visited_buf = Some (snd ra), visited_cap = 2, gen = 2 \<rparr>)"
    using hit
    by (subst search_warm [where b = "\<lambda>_. 0"]) (simp_all add: ix Let_def ra_def [symmetric])
  show ?thesis
    unfolding idx_def [symmetric] cold warm buf by simp
qed

text \<open>Then \<open>2^31 - 1\<close> searches that meet no posting: each adds two to the
      counter, the
  second increment of the last one takes it from \<open>2^32 - 1\<close> to 0.\<close>

lemma wrap_stage2:
  "search_all (build_index [''ABCDEFGHIABCDEF'', ''BCDEFGHIABCDEFG'']) (replicate 2147483647
        ''JJJJJJJJJJJJJJJ'')
       \<lparr> visited_buf = Some b, visited_cap = 2, gen = 2 \<rparr>
     = (replicate 2147483647 0, \<lparr> visited_buf = Some b, visited_cap = 2, gen = 0 \<rparr>)"
proof -
  have "search_all (build_index [''ABCDEFGHIABCDEF'', ''BCDEFGHIABCDEFG'']) (replicate 2147483647
        ''JJJJJJJJJJJJJJJ'')
       \<lparr> visited_buf = Some b, visited_cap = 2, gen = 2 \<rparr>
     = (replicate 2147483647 0,
        \<lparr> visited_buf = Some b, visited_cap = 2, gen = 2 \<rparr>
          \<lparr> gen := gen \<lparr> visited_buf = Some b, visited_cap = 2, gen = 2 \<rparr> + 2 *
                of_nat 2147483647 \<rparr>)"
    by (rule misses_run [where b = b, OF _ _ _ _ qm_postings_a qm_postings_d])
      (simp_all add: two_words_index)
  then show ?thesis by simp
qed

text \<open>The second word as a query: the first increment gives generation 1, no reset; Phase
  A finds word 1 and leaves the mark of word 0 alone.\<close>

lemma wrap_stage3:
  assumes "b 0 = 2" and "b 1 = 0"
  shows "\<exists>b'. b' 0 = 2 \<and>
     casefilter_search (build_index [''ABCDEFGHIABCDEF'', ''BCDEFGHIABCDEFG'']) ''BCDEFGHIABCDEFG''
           3 \<lparr> visited_buf = Some b, visited_cap = 2, gen = 0 \<rparr>
       = (1, \<lparr> visited_buf = Some b', visited_cap = 2, gen = 1 \<rparr>)"
proof -
  define idx where "idx = (build_index [''ABCDEFGHIABCDEF'', ''BCDEFGHIABCDEFG''])"
  define ra where "ra = phase_a idx (query_pairs idx ''BCDEFGHIABCDEFG'') (pack_keyword
        ''BCDEFGHIABCDEFG'') 3 1
      (sort_order (query_pairs idx ''BCDEFGHIABCDEFG'')) b"
  note ix = two_words_index [folded idx_def]
  have ids: "\<forall>p \<in> set (sort_order (query_pairs idx ''BCDEFGHIABCDEFG'')).
      \<forall>wid \<in> set (posting_a idx (query_pairs idx ''BCDEFGHIABCDEFG'' ! p)). nat wid
            \<noteq> 0"
    by (rule order_all) (use w1_postings_a in \<open>simp add: idx_def\<close>)
  have m: "1 \<in> set (posting_a idx (query_pairs idx ''BCDEFGHIABCDEFG'' ! 0))"
    using posting_a_has [OF two_words_valid(1,2,5), of 0 1 0] by (simp add: idx_def)
  have hd: "hamming ''BCDEFGHIABCDEFG'' ''BCDEFGHIABCDEFG'' = 0" by (simp add: hamming_def)
  have c: "codes idx (nat 1) = pack_keyword ''BCDEFGHIABCDEFG''" using ix(3) by simp
  have h: "hamming_packed15 (pack_keyword ''BCDEFGHIABCDEFG'') (codes idx (nat 1)) \<le> 3"
    unfolding c using hamming_packed15_words [OF two_words_valid(5,5)] by (simp add: hd)
  have nv: "b (nat 1) \<noteq> 1" using assms(2) by simp
  have hit: "fst ra"
    unfolding ra_def
    by (rule phase_a_hit [where ?p0.0 = 0 and ?wid0.0 = 1 and visited = b and g = 1, OF _ m h nv])
      (simp add: sort_order_props)
  have keep: "snd ra 0 = 2"
    using phase_a_frame [OF ids, of "pack_keyword ''BCDEFGHIABCDEFG''" 3 1 b] assms(1)
    by (simp add: ra_def)
  have "casefilter_search idx ''BCDEFGHIABCDEFG'' 3 \<lparr> visited_buf = Some b, visited_cap = 2,
        gen = 0 \<rparr>
      = (1, \<lparr> visited_buf = Some (snd ra), visited_cap = 2, gen = 1 \<rparr>)"
    using hit
    by (subst search_warm [where b = b]) (simp_all add: ix Let_def ra_def [symmetric])
  then show ?thesis using keep unfolding idx_def by blast
qed

text \<open>The first query again: the first increment gives generation 2, which is the mark
  word 0 still carries, so Phase A skips it; Phase B finds no posting.\<close>

lemma wrap_stage4:
  assumes "b 0 = 2"
  shows "casefilter_search (build_index [''ABCDEFGHIABCDEF'', ''BCDEFGHIABCDEFG''])
        ''ABCJEFGJIABJDEF'' 3 \<lparr> visited_buf = Some b, visited_cap = 2, gen = 1 \<rparr>
       = (0, \<lparr> visited_buf = Some b, visited_cap = 2, gen = 3 \<rparr>)"
proof -
  have a: "\<forall>p<10. \<forall>wid \<in> set (posting_a (build_index [''ABCDEFGHIABCDEF'',
        ''BCDEFGHIABCDEFG'']) (query_pairs (build_index [''ABCDEFGHIABCDEF'', ''BCDEFGHIABCDEFG''])
        ''ABCJEFGJIABJDEF'' ! p)).
      b (nat wid) = gen \<lparr> visited_buf = Some b, visited_cap = 2, gen = 1 \<rparr> + 1"
    using q_postings_a assms by simp
  have "casefilter_search (build_index [''ABCDEFGHIABCDEF'', ''BCDEFGHIABCDEFG''])
        ''ABCJEFGJIABJDEF'' 3 \<lparr> visited_buf = Some b, visited_cap = 2, gen = 1 \<rparr>
      = (0, \<lparr> visited_buf = Some b, visited_cap = 2, gen = 1 \<rparr>
              \<lparr> gen := gen \<lparr> visited_buf = Some b, visited_cap = 2, gen = 1 \<rparr> +
                    2 \<rparr>)"
    by (rule search_miss_step [where b = b, OF _ _ _ _ a q_postings_d])
      (simp_all add: two_words_index)
  then show ?thesis by simp
qed

lemma wrap_prefix:
  "\<exists>b. b 0 = 2 \<and>
     search_all (build_index [''ABCDEFGHIABCDEF'', ''BCDEFGHIABCDEFG'']) (''ABCJEFGJIABJDEF'' #
           replicate 2147483647 ''JJJJJJJJJJJJJJJ'' @ [''BCDEFGHIABCDEFG'']) initial_state
       = (1 # replicate 2147483647 0 @ [1], \<lparr> visited_buf = Some b, visited_cap = 2, gen = 1
             \<rparr>)"
proof -
  from wrap_stage3 [of "(\<lambda>_. 0)(0 := 2)"] obtain b' where b': "b' 0 = 2"
    and s3: "casefilter_search (build_index [''ABCDEFGHIABCDEF'', ''BCDEFGHIABCDEFG''])
          ''BCDEFGHIABCDEFG'' 3
        \<lparr> visited_buf = Some ((\<lambda>_. 0)(0 := 2)), visited_cap = 2, gen = 0 \<rparr>
       = (1, \<lparr> visited_buf = Some b', visited_cap = 2, gen = 1 \<rparr>)"
    by auto
  have "search_all (build_index [''ABCDEFGHIABCDEF'', ''BCDEFGHIABCDEFG'']) (''ABCJEFGJIABJDEF'' #
        replicate 2147483647 ''JJJJJJJJJJJJJJJ'' @ [''BCDEFGHIABCDEFG'']) initial_state
       = (1 # replicate 2147483647 0 @ [1], \<lparr> visited_buf = Some b', visited_cap = 2, gen = 1
             \<rparr>)"
    by (simp add: wrap_stage1 search_all_append wrap_stage2 s3 Let_def)
  then show ?thesis using b' by blast
qed

lemma wrap_run:
  "fst (search_all (build_index [''ABCDEFGHIABCDEF'', ''BCDEFGHIABCDEFG'']) (''ABCJEFGJIABJDEF'' #
        replicate 2147483647 ''JJJJJJJJJJJJJJJ'' @ [''BCDEFGHIABCDEFG'', ''ABCJEFGJIABJDEF''])
        initial_state)
     = 1 # replicate 2147483647 0 @ [1, 0]"
proof -
  from wrap_prefix obtain b where b: "b 0 = 2"
    and p: "search_all (build_index [''ABCDEFGHIABCDEF'', ''BCDEFGHIABCDEFG'']) (''ABCJEFGJIABJDEF''
          # replicate 2147483647 ''JJJJJJJJJJJJJJJ'' @ [''BCDEFGHIABCDEFG'']) initial_state
       = (1 # replicate 2147483647 0 @ [1], \<lparr> visited_buf = Some b, visited_cap = 2, gen = 1
             \<rparr>)"
    by blast
  have e: "''ABCJEFGJIABJDEF'' # replicate 2147483647 ''JJJJJJJJJJJJJJJ'' @ [''BCDEFGHIABCDEFG'',
        ''ABCJEFGJIABJDEF'']
      = (''ABCJEFGJIABJDEF'' # replicate 2147483647 ''JJJJJJJJJJJJJJJ'' @ [''BCDEFGHIABCDEFG'']) @
            [''ABCJEFGJIABJDEF'']"
    by simp
  show ?thesis
    unfolding e search_all_append [of _ "''ABCJEFGJIABJDEF'' # replicate 2147483647
          ''JJJJJJJJJJJJJJJ'' @ [''BCDEFGHIABCDEFG'']"] p
    by (simp add: wrap_stage4 [of b, OF b] Let_def)
qed


text \<open>
  C9.  The result of a query depends on the searches made before it.  Over the dictionary
  \<open>ABCDEFGHIABCDEF\<close>, \<open>BCDEFGHIABCDEFG\<close> the query \<open>ABCJEFGJIABJDEF\<close> returns 1 as the first
  search of a process.  In the run made of that query, \<open>2^31 - 1\<close> times the query
  \<open>JJJJJJJJJJJJJJJ\<close>, the query \<open>BCDEFGHIABCDEFG\<close> and the first query again, the first query
  returns 1 at the start and 0 at the end: the second increment of the generation counter
  has wrapped to 0 unchecked, and the last search runs Phase A with the generation of the
  first.
\<close>

theorem search_order_dependence:
  "fst (casefilter_search (build_index [''ABCDEFGHIABCDEF'', ''BCDEFGHIABCDEFG''])
          ''ABCJEFGJIABJDEF'' 3 initial_state) = 1
   \<and> fst (search_all (build_index [''ABCDEFGHIABCDEF'', ''BCDEFGHIABCDEFG''])
            (''ABCJEFGJIABJDEF'' # replicate 2147483647 ''JJJJJJJJJJJJJJJ''
               @ [''BCDEFGHIABCDEFG'', ''ABCJEFGJIABJDEF''])
            initial_state)
       = 1 # replicate 2147483647 0 @ [1, 0]"
  using wrap_run by (simp add: wrap_stage1)

text \<open>
  C1.  Phase A does suppress the first evaluation of a candidate once the counter has
  wrapped.  In the state reached after the first query, \<open>2^31 - 1\<close> queries without
  postings and the second dictionary word as a query, the query \<open>ABCJEFGJIABJDEF\<close>, at
  Hamming distance 3 from the dictionary word \<open>ABCDEFGHIABCDEF\<close>, returns 0.
\<close>

theorem phase_a_suppressed_after_wrap:
  "list_all valid_word [''ABCDEFGHIABCDEF'', ''BCDEFGHIABCDEFG'']
   \<and> valid_word ''ABCJEFGJIABJDEF''
   \<and> ''ABCDEFGHIABCDEF'' \<in> set [''ABCDEFGHIABCDEF'', ''BCDEFGHIABCDEFG'']
   \<and> hamming ''ABCJEFGJIABJDEF'' ''ABCDEFGHIABCDEF'' = 3
   \<and> fst (casefilter_search (build_index [''ABCDEFGHIABCDEF'', ''BCDEFGHIABCDEFG''])
            ''ABCJEFGJIABJDEF'' 3
            (snd (search_all (build_index [''ABCDEFGHIABCDEF'', ''BCDEFGHIABCDEFG''])
                    (''ABCJEFGJIABJDEF'' # replicate 2147483647 ''JJJJJJJJJJJJJJJ''
                       @ [''BCDEFGHIABCDEFG''])
                    initial_state))) = 0"
proof -
  from wrap_prefix obtain b where b: "b 0 = 2"
    and p: "search_all (build_index [''ABCDEFGHIABCDEF'', ''BCDEFGHIABCDEFG''])
              (''ABCJEFGJIABJDEF'' # replicate 2147483647 ''JJJJJJJJJJJJJJJ''
                 @ [''BCDEFGHIABCDEFG''])
              initial_state
       = (1 # replicate 2147483647 0 @ [1],
          \<lparr> visited_buf = Some b, visited_cap = 2, gen = 1 \<rparr>)"
    by blast
  have h: "hamming ''ABCJEFGJIABJDEF'' ''ABCDEFGHIABCDEF'' = 3" by (simp add: hamming_def)
  have r: "fst (casefilter_search (build_index [''ABCDEFGHIABCDEF'', ''BCDEFGHIABCDEFG''])
            ''ABCJEFGJIABJDEF'' 3
            (snd (search_all (build_index [''ABCDEFGHIABCDEF'', ''BCDEFGHIABCDEFG''])
                    (''ABCJEFGJIABJDEF'' # replicate 2147483647 ''JJJJJJJJJJJJJJJ''
                       @ [''BCDEFGHIABCDEFG''])
                    initial_state))) = 0"
    unfolding p by (simp add: wrap_stage4 [of b, OF b])
  show ?thesis using two_words_valid(1,3) h r by simp
qed

end
